theory Spec2Isabelle
  imports
    Main
    "HOL-Library.Char_ord"
    "HOL-Library.List_Lexorder"
    "HOL-Library.Multiset"
    "HOL-Library.Sublist"
begin

section \<open>Strings\<close>

text \<open>
  A JavaScript string is modelled as a HOL \<open>string\<close>: the list of its code units, every
  one of them below 256. Strings are compared by code unit, which is the order
  \<open>Array.prototype.sort\<close> uses by default; \<^const>\<open>sort\<close> on \<open>string\<close> is that order.
\<close>

text \<open>The character classes \<open>\w\<close>, \<open>\s\<close>, \<open>[a-z]\<close> and \<open>[{}]\<close> of the regular expressions.\<close>

definition isWord :: "char \<Rightarrow> bool" where
  "isWord c = (c \<in> set ''abcdefghijklmnopqrstuvwxyzABCDEFGHIJKLMNOPQRSTUVWXYZ0123456789_'')"

definition isLower :: "char \<Rightarrow> bool" where
  "isLower c = (c \<in> set ''abcdefghijklmnopqrstuvwxyz'')"

definition isSpace :: "char \<Rightarrow> bool" where
  "isSpace c = (c \<in> set [CHR 0x09, CHR 0x0A, CHR 0x0B, CHR 0x0C, CHR 0x0D, CHR 0x20, CHR 0xA0])"

definition isBrace :: "char \<Rightarrow> bool" where
  "isBrace c = (c = CHR ''{'' \<or> c = CHR ''}'')"

text \<open>\<open>String.prototype.includes\<close>: \<open>sub\<close> occurs in \<open>s\<close> as a contiguous substring.\<close>

fun includesStr :: "string \<Rightarrow> string \<Rightarrow> bool" where
  "includesStr [] sub = (sub = [])"
| "includesStr (c # cs) sub = (prefix sub (c # cs) \<or> includesStr cs sub)"

text \<open>
  \<open>String.prototype.split\<close> with a non-empty separator string: the pieces between the
  occurrences of the separator, found from left to right without overlap.
\<close>

function split :: "string \<Rightarrow> string \<Rightarrow> string list" where
  "split [] sep = [[]]"
| "split (c # cs) sep =
     (if sep \<noteq> [] \<and> prefix sep (c # cs)
      then [] # split (drop (length sep) (c # cs)) sep
      else (case split cs sep of
              [] \<Rightarrow> [[c]]
            | p # ps \<Rightarrow> (c # p) # ps))"
  by pat_completeness auto
termination
  by (relation "measure (\<lambda>(s, sep). length s)") (auto simp: neq_Nil_conv)

text \<open>\<open>Array.prototype.join\<close>.\<close>

fun join :: "string list \<Rightarrow> string \<Rightarrow> string" where
  "join [] sep = []"
| "join [x] sep = x"
| "join (x # y # ys) sep = x @ sep @ join (y # ys) sep"

text \<open>\<open>String.prototype.slice(b, e)\<close> for \<open>0 \<le> b\<close> and \<open>0 \<le> e\<close>.\<close>

definition slice :: "string \<Rightarrow> nat \<Rightarrow> nat \<Rightarrow> string" where
  "slice s b e = take (e - b) (drop b s)"

text \<open>\<open>String.prototype.trim\<close>.\<close>

definition trim :: "string \<Rightarrow> string" where
  "trim s = rev (dropWhile isSpace (rev (dropWhile isSpace s)))"

text \<open>\<open>s.replace(/\s+/g, ' ')\<close>: every maximal run of white space becomes one space.\<close>

function collapseSpaces :: "string \<Rightarrow> string" where
  "collapseSpaces [] = []"
| "collapseSpaces (c # cs) =
     (if isSpace c then CHR '' '' # collapseSpaces (dropWhile isSpace cs)
      else c # collapseSpaces cs)"
  by pat_completeness auto
termination
proof (relation "measure length")
  fix c :: char and cs :: string
  show "(dropWhile isSpace cs, c # cs) \<in> measure length"
    using length_dropWhile_le [of isSpace cs] by simp
qed simp_all

text \<open>\<open>/(^\s|\s$|\s\s)/.test(form)\<close>.\<close>

fun doubleSpace :: "string \<Rightarrow> bool" where
  "doubleSpace (c # d # cs) = ((isSpace c \<and> isSpace d) \<or> doubleSpace (d # cs))"
| "doubleSpace cs = False"

definition badWhiteSpace :: "string \<Rightarrow> bool" where
  "badWhiteSpace form =
     ((form \<noteq> [] \<and> isSpace (hd form)) \<or> (form \<noteq> [] \<and> isSpace (last form)) \<or> doubleSpace form)"


section \<open>Errors\<close>

text \<open>
  One constructor for each message given to \<open>logThenThrow\<close> or to \<open>new Error\<close>, and
  \<open>TypeError\<close> for the exceptions that the JavaScript runtime raises itself (a property
  read from \<open>undefined\<close>, a call of something that is not a function, a destructuring of
  \<open>undefined\<close>).
\<close>

datatype error =
    UnexpectedBrace
  | NotExactlyTwoForms
  | UnexpectedBar
  | UnexpectedWhiteSpace
  | InvalidPlural
  | UnmatchedBrace
  | CategoryMismatch "string list" "string list"
  | FormsCannotBeEmpty
  | UnexpectedEmptyPluralForm
  | DifferentVariablesInForms
  | StraightSingleQuote
  | UnexpectedHash
  | TooManyPluralForms
  | UnexpectedLinkedLocaleMessage
  | InvalidMessage
  | ParentNotFound
  | InvalidComponentInterpolation
  | InvalidSource
  | InvalidTranslated
  | InvalidKey
  | SparseArray
  | PluralizationMismatch
  | DifferentVariablesInTranslation
  | TypeError


section \<open>Locales\<close>

text \<open>
  The table \<open>locales\<close> as it is written, an option being \<open>None\<close> where the source gives
  none, and its normalization. The categories of a locale that gives none come from
  \<open>new Intl.PluralRules([locale]).resolvedOptions().pluralCategories\<close>, which the
  JavaScript runtime provides: it is the parameter \<open>intl\<close>.
\<close>

record localeOptions =
  pluralCategories :: "string list"
  warnVariableSeparator :: bool

definition localesSource :: "(string \<times> string list option \<times> bool option) list" where
  "localesSource =
     [(''en'', None, None),
      (''cs'', None, None),
      (''de'', None, None),
      (''es'', None, None),
      (''fr'', Some [''one'', ''other''], None),
      (''id'', None, None),
      (''it'', None, None),
      (''ja'', None, Some False),
      (''sw'', None, None)]"

definition sourceLocale :: string where
  "sourceLocale = ''en''"

definition normalize ::
  "(string \<Rightarrow> string list) \<Rightarrow> string \<Rightarrow> string list option \<times> bool option \<Rightarrow> localeOptions" where
  "normalize intl locale options =
     \<lparr> pluralCategories = (case fst options of None \<Rightarrow> intl locale | Some cs \<Rightarrow> cs),
       warnVariableSeparator = (case snd options of None \<Rightarrow> True | Some b \<Rightarrow> b) \<rparr>"

definition locales :: "(string \<Rightarrow> string list) \<Rightarrow> string \<Rightarrow> localeOptions option" where
  "locales intl locale =
     map_option (normalize intl locale) (map_of localesSource locale)"


section \<open>Variables\<close>

text \<open>
  \<open>pluralForm.match(/{\w+}/g)\<close>: the matches from left to right. A match is an open
  brace, a non-empty run of word characters, which is maximal since the character after
  it is a close brace, and that close brace; the search goes on after the match, or at
  the next character where there is none. No match is the empty list.
\<close>

function matchVars :: "string \<Rightarrow> string list" where
  "matchVars [] = []"
| "matchVars (c # cs) =
     (if c = CHR ''{'' then
        (case dropWhile isWord cs of
           [] \<Rightarrow> matchVars cs
         | d # r \<Rightarrow>
             if takeWhile isWord cs \<noteq> [] \<and> d = CHR ''}''
             then (c # takeWhile isWord cs @ [d]) # matchVars r
             else matchVars cs)
      else matchVars cs)"
  by pat_completeness auto
termination
proof (relation "measure length")
  fix c d :: char and cs r :: string
  assume "dropWhile isWord cs = d # r"
  then show "(r, c # cs) \<in> measure length"
    using length_dropWhile_le [of isWord cs] by simp
qed simp_all

definition parseVars :: "string \<Rightarrow> error + string list" where
  "parseVars pluralForm =
     (let vars = sort (matchVars pluralForm);
          braceMatches = filter isBrace pluralForm
      in if braceMatches \<noteq> [] \<and> length braceMatches \<noteq> 2 * length vars
         then Inl UnexpectedBrace
         else Inr vars)"


text \<open>
  What the output of \<open>parseVars\<close> is measured against: \<open>isToken t\<close> says that \<open>t\<close> is an
  open brace, one or more word characters and a close brace, and \<open>occurrences t s\<close>
  counts the positions of \<open>s\<close> at which \<open>t\<close> starts.
\<close>

definition isToken :: "string \<Rightarrow> bool" where
  "isToken t =
     (case t of
        [] \<Rightarrow> False
      | c # cs \<Rightarrow>
          c = CHR ''{'' \<and> cs \<noteq> [] \<and> last cs = CHR ''}'' \<and> butlast cs \<noteq> [] \<and>
          list_all isWord (butlast cs))"

fun occurrences :: "string \<Rightarrow> string \<Rightarrow> nat" where
  "occurrences t [] = 0"
| "occurrences t (c # cs) = (if prefix t (c # cs) then 1 else 0) + occurrences t cs"


section \<open>Plurals\<close>

text \<open>
  A \<open>PluralForms\<close> object holds its forms at the indices \<open>0\<close> to \<open>length - 1\<close>. The
  constructor is \<open>newPluralForms\<close>; the loop over the forms after the first is
  \<open>checkForms\<close>.
\<close>

datatype PluralForms = PluralForms (forms: "string list")

fun checkForms :: "string \<Rightarrow> string list \<Rightarrow> string list \<Rightarrow> error + unit" where
  "checkForms form0 vars [] = Inr ()"
| "checkForms form0 vars (form # rest) =
     (if (form = []) \<noteq> (form0 = []) then Inl UnexpectedEmptyPluralForm
      else (case parseVars form of
              Inl e \<Rightarrow> Inl e
            | Inr vs \<Rightarrow>
                if vs \<noteq> vars then Inl DifferentVariablesInForms
                else checkForms form0 vars rest))"

definition newPluralForms :: "string list \<Rightarrow> error + PluralForms" where
  "newPluralForms fs =
     (case fs of
        [] \<Rightarrow> Inl FormsCannotBeEmpty
      | form0 # rest \<Rightarrow>
          (case parseVars form0 of
             Inl e \<Rightarrow> Inl e
           | Inr vars \<Rightarrow>
               (case checkForms form0 vars rest of
                  Inl e \<Rightarrow> Inl e
                | Inr u \<Rightarrow> Inr (PluralForms fs))))"

text \<open>\<open>PluralForms.empty(length)\<close>.\<close>

definition emptyPluralForms :: "nat \<Rightarrow> error + PluralForms" where
  "emptyPluralForms n = newPluralForms (replicate n [])"

text \<open>\<open>isEmpty()\<close>: \<open>this[0] === ''\<close>, which is false where \<open>this[0]\<close> is undefined.\<close>

definition isEmpty :: "PluralForms \<Rightarrow> bool" where
  "isEmpty pf = (case forms pf of [] \<Rightarrow> False | form0 # rest \<Rightarrow> form0 = [])"

fun checkVueForms :: "string list \<Rightarrow> error + unit" where
  "checkVueForms [] = Inr ()"
| "checkVueForms (form # rest) =
     (if includesStr form ''|'' then Inl UnexpectedBar
      else if badWhiteSpace form then Inl UnexpectedWhiteSpace
      else checkVueForms rest)"

definition fromVueI18n :: "string \<Rightarrow> error + PluralForms" where
  "fromVueI18n message =
     (let fs = split message '' | ''
      in if length fs > 2 then Inl NotExactlyTwoForms
         else (case checkVueForms fs of
                 Inl e \<Rightarrow> Inl e
               | Inr u \<Rightarrow> newPluralForms fs))"

definition toVueI18n :: "PluralForms \<Rightarrow> error + string" where
  "toVueI18n pf =
     (if list_ex (\<lambda>form. includesStr form ''|'') (forms pf) then Inl UnexpectedBar
      else Inr (join (forms pf) '' | ''))"


text \<open>
  \<open>toTransifex()\<close>. The loop over the forms is \<open>checkReserved\<close>. An instance without
  forms has \<open>this[0]\<close> undefined, which is the result \<open>None\<close>.
\<close>

fun checkReserved :: "string list \<Rightarrow> error + unit" where
  "checkReserved [] = Inr ()"
| "checkReserved (form # rest) =
     (if includesStr form [CHR 0x27] then Inl StraightSingleQuote
      else if includesStr form ''#'' then Inl UnexpectedHash
      else checkReserved rest)"

definition toTransifex :: "PluralForms \<Rightarrow> error + string option" where
  "toTransifex pf =
     (case checkReserved (forms pf) of
        Inl e \<Rightarrow> Inl e
      | Inr u \<Rightarrow>
          if length (forms pf) > 2 then Inl TooManyPluralForms
          else (case forms pf of
                  [form0, form1] \<Rightarrow>
                    Inr (Some (''{count, plural, one {'' @ form0 @ ''} other {'' @ form1 @ ''}}''))
                | form0 # rest \<Rightarrow> Inr (Some form0)
                | [] \<Rightarrow> Inr None))"

text \<open>
  \<open>fromTransifex(string, locale)\<close>. \<open>icuMatch\<close> is the test
  \<open>/^({count, plural,).+}$/s\<close>, whose group is \<open>icuOpen\<close>. \<open>formMatch\<close> is
  \<open>/^ ([a-z]+) {/\<close>, giving the whole match and its group. \<open>scanBraces\<close> is the inner
  loop, from the values of \<open>unmatchedBraces\<close> and \<open>end\<close> before it to their values after
  it. \<open>parsePlural\<close> is the outer loop from a value of \<open>begin\<close> on: it gives the
  categories and the forms that the loop pushes from there, in the order of the pushes.
\<close>

definition icuOpen :: string where
  "icuOpen = ''{count, plural,''"

definition icuMatch :: "string \<Rightarrow> bool" where
  "icuMatch s = (prefix icuOpen s \<and> length icuOpen + 2 \<le> length s \<and> last s = CHR ''}'')"

definition formMatch :: "string \<Rightarrow> (string \<times> string) option" where
  "formMatch s =
     (case s of
        [] \<Rightarrow> None
      | c # cs \<Rightarrow>
          if c = CHR '' '' \<and> takeWhile isLower cs \<noteq> [] \<and> prefix '' {'' (dropWhile isLower cs)
          then Some (c # takeWhile isLower cs @ '' {'', takeWhile isLower cs)
          else None)"

function scanBraces :: "string \<Rightarrow> nat \<Rightarrow> nat \<Rightarrow> nat \<times> nat" where
  "scanBraces string unmatchedBraces endIdx =
     (if unmatchedBraces > 0 \<and> endIdx < length string - 1
      then scanBraces string
             (if string ! endIdx = CHR ''{'' then unmatchedBraces + 1
              else if string ! endIdx = CHR ''}'' then unmatchedBraces - 1
              else unmatchedBraces)
             (endIdx + 1)
      else (unmatchedBraces, endIdx))"
  by pat_completeness auto
termination
  by (relation "measure (\<lambda>(s, u, e). length s - e)") auto

declare scanBraces.simps [simp del]

lemma scanBraces_end: "scanBraces s u e = (u', e') \<Longrightarrow> e \<le> e'"
proof (induction s u e rule: scanBraces.induct)
  case (1 s u e)
  show ?case
  proof (cases "u > 0 \<and> e < length s - 1")
    case True
    with "1.prems" have "e + 1 \<le> e'"
      by (intro "1.IH" [OF True]) (simp add: scanBraces.simps [of s u e])
    then show ?thesis by simp
  next
    case False
    with "1.prems" show ?thesis
      by (auto simp: scanBraces.simps [of s u e] split: if_splits)
  qed
qed

lemma formMatch_length: "formMatch s = Some (whole, category) \<Longrightarrow> 0 < length whole"
  by (auto simp: formMatch_def split: list.splits if_splits)

function parsePlural :: "string \<Rightarrow> nat \<Rightarrow> error + (string list \<times> string list)" where
  "parsePlural string beginIdx =
     (if beginIdx < length string - 1 then
        (case formMatch (drop beginIdx string) of
           None \<Rightarrow> Inl InvalidPlural
         | Some (whole, category) \<Rightarrow>
             (case scanBraces string 1 (beginIdx + length whole) of
                (unmatchedBraces, endIdx) \<Rightarrow>
                  if unmatchedBraces \<noteq> 0 then Inl UnmatchedBrace
                  else (case parsePlural string endIdx of
                          Inl e \<Rightarrow> Inl e
                        | Inr (categories, fs) \<Rightarrow>
                            Inr (category # categories,
                                 slice string (beginIdx + length whole) (endIdx - 1) # fs))))
      else Inr ([], []))"
  by pat_completeness auto
termination
  apply (relation "measure (\<lambda>(s, b). length s - b)")
   apply simp
  apply (auto dest!: formMatch_length scanBraces_end [OF sym])
  subgoal for string beginIdx whole endIdx by (cases whole) simp_all
  done

declare parsePlural.simps [simp del]

definition fromTransifex :: "(string \<Rightarrow> string list) \<Rightarrow> string \<Rightarrow> string \<Rightarrow> error + PluralForms" where
  "fromTransifex intl string locale =
     (case (if icuMatch string
            then (case parsePlural string (length icuOpen) of
                    Inl e \<Rightarrow> Inl e
                  | Inr (categories, fs) \<Rightarrow>
                      (case locales intl locale of
                         None \<Rightarrow> Inl TypeError
                       | Some options \<Rightarrow>
                           if sort categories \<noteq> pluralCategories options
                           then Inl (CategoryMismatch (pluralCategories options) (sort categories))
                           else Inr fs))
            else Inr [string]) of
        Inl e \<Rightarrow> Inl e
      | Inr fs \<Rightarrow> newPluralForms (map (\<lambda>form. collapseSpaces (trim form)) fs))"


section \<open>Linked locale messages\<close>

text \<open>\<open>linkMatch\<close> is \<open>/^@:([\w.]+)$/\<close>, giving the group of a match.\<close>

definition linkMatch :: "string \<Rightarrow> string option" where
  "linkMatch s =
     (if prefix ''@:'' s \<and> drop 2 s \<noteq> [] \<and> list_all (\<lambda>c. isWord c \<or> c = CHR ''.'') (drop 2 s)
      then Some (drop 2 s)
      else None)"

definition pathOfLinkedMessage :: "PluralForms \<Rightarrow> error + string list option" where
  "pathOfLinkedMessage pf =
     (case (case forms pf of [form0] \<Rightarrow> linkMatch form0 | fs \<Rightarrow> None) of
        Some path \<Rightarrow> Inr (Some (split path ''.''))
      | None \<Rightarrow>
          if list_ex (\<lambda>form. includesStr form ''@:'') (forms pf)
          then Inl UnexpectedLinkedLocaleMessage
          else Inr None)"


section \<open>Validation of a translation\<close>

text \<open>
  \<open>validateTranslation(locale)\<close> applied to the \<open>source\<close>, \<open>translated\<close> and \<open>path\<close> of a
  translation; \<open>translated\<close> is \<open>None\<close> where it is null or undefined. The result lists
  the warnings written by \<open>console.warn\<close>, which a failing call does not return.

  \<open>isSeparator\<close> holds of the characters that the class \<open>noSeparator\<close> excludes, of which
  the quotation marks and dashes above code unit 255 do not occur in a HOL string, and
  \<open>variableWithoutSeparator\<close> is the test of the regular expression built from it.
  \<open>firstFormVars pf\<close> is \<open>parseVars(pf[0])\<close>, a \<open>TypeError\<close> where \<open>pf[0]\<close> is undefined.
  \<open>checkTranslatedForms\<close> is the loop over the forms of \<open>translated\<close>, the list of the
  source forms being those from the index of the loop on.
\<close>

definition isSeparator :: "char \<Rightarrow> bool" where
  "isSeparator c = (c \<in> set (''] !'' @ [CHR 0x22, CHR 0x27] @ ''(),./:;<>?[-''))"

fun variableWithoutSeparator :: "string \<Rightarrow> bool" where
  "variableWithoutSeparator (c # d # cs) =
     ((\<not> isSeparator c \<and> d = CHR ''{'') \<or> (c = CHR ''}'' \<and> \<not> isSeparator d) \<or>
      variableWithoutSeparator (d # cs))"
| "variableWithoutSeparator cs = False"

definition firstFormVars :: "PluralForms \<Rightarrow> error + string list" where
  "firstFormVars pf = (case forms pf of [] \<Rightarrow> Inl TypeError | form0 # rest \<Rightarrow> parseVars form0)"

fun checkTranslatedForms :: "bool \<Rightarrow> string list \<Rightarrow> string list \<Rightarrow> string list \<Rightarrow> error + string list" where
  "checkTranslatedForms warn path sourceForms [] = Inr []"
| "checkTranslatedForms warn path sourceForms (form # rest) =
     (if includesStr form ''@:'' \<and> (case sourceForms of [] \<Rightarrow> True | sourceForm # others \<Rightarrow> form \<noteq> sourceForm)
      then Inl UnexpectedLinkedLocaleMessage
      else (case checkTranslatedForms warn path (tl sourceForms) rest of
              Inl e \<Rightarrow> Inl e
            | Inr warnings \<Rightarrow>
                Inr ((if warn \<and> variableWithoutSeparator form
                      then [''warning: '' @ join path ''.'' @ '': variable without separator.'']
                      else []) @ warnings)))"

definition validateTranslation ::
  "(string \<Rightarrow> string list) \<Rightarrow> string \<Rightarrow> PluralForms \<Rightarrow> PluralForms option \<Rightarrow> string list \<Rightarrow>
     error + string list" where
  "validateTranslation intl locale source translated path =
     (case translated of
        None \<Rightarrow> Inr []
      | Some tr \<Rightarrow>
          (case locales intl locale of
             None \<Rightarrow> Inl TypeError
           | Some options \<Rightarrow>
               if length (pluralCategories options) \<noteq> 1 \<and>
                  (length (forms source) \<noteq> 1) \<noteq> (length (forms tr) \<noteq> 1)
               then Inl PluralizationMismatch
               else (case (if isEmpty tr then Inr ()
                           else (case firstFormVars source of
                                   Inl e \<Rightarrow> Inl e
                                 | Inr sourceVars \<Rightarrow>
                                     (case firstFormVars tr of
                                        Inl e \<Rightarrow> Inl e
                                      | Inr translatedVars \<Rightarrow>
                                          if sourceVars \<noteq> translatedVars
                                          then Inl DifferentVariablesInTranslation
                                          else Inr ()))) of
                       Inl e \<Rightarrow> Inl e
                     | Inr u \<Rightarrow>
                         checkTranslatedForms (warnVariableSeparator options) path
                           (forms source) (forms tr))))"


section \<open>Component interpolation\<close>

text \<open>
  The Vue I18n messages of the source locale after their strings have become
  \<open>PluralForms\<close> objects: a message, a non-array object or an array. The entries of an
  object are in the order of \<open>Object.entries\<close>, and no key occurs twice.
\<close>

datatype messages =
    Message PluralForms
  | Object "(string \<times> messages) list"
  | Array "messages list"

text \<open>
  A \<open>ComponentInterpolationNode\<close>. The nodes of one component interpolation are the
  values of \<open>nodesByKey\<close>, an association list here; a node refers to its parent node and
  to its child nodes by their keys in \<open>nodesByKey\<close>.
\<close>

record node =
  parentNode :: "string option"
  childNodes :: "string list"
  nodeKey :: string
  pluralForms :: PluralForms




fun findParent :: "(string \<times> messages) list \<Rightarrow> string \<Rightarrow> error + string option" where
  "findParent [] token = Inr None"
| "findParent ((k, Message pf) # entries) token =
     (case forms pf of
        [] \<Rightarrow> Inl TypeError
      | form0 # rest \<Rightarrow>
          if includesStr form0 token then Inr (Some k) else findParent entries token)"
| "findParent ((k, v) # entries) token = Inl TypeError"

definition updateNode :: "string \<Rightarrow> (node \<Rightarrow> node) \<Rightarrow> (string \<times> node) list \<Rightarrow> (string \<times> node) list" where
  "updateNode k f nodes = map (\<lambda>(k', n). if k' = k then (k', f n) else (k', n)) nodes"

fun linkNodes ::
  "(string \<times> messages) list \<Rightarrow> string list \<Rightarrow> (string \<times> node) list \<Rightarrow> error + (string \<times> node) list" where
  "linkNodes entries [] nodes = Inr nodes"
| "linkNodes entries (k # ks) nodes =
     (if k \<noteq> ''full'' then
        (case findParent entries (''{'' @ k @ ''}'') of
           Inl e \<Rightarrow> Inl e
         | Inr None \<Rightarrow> Inl TypeError
         | Inr (Some parentKey) \<Rightarrow>
             linkNodes entries ks
               (updateNode parentKey (\<lambda>n. n\<lparr>childNodes := childNodes n @ [k]\<rparr>)
                  (updateNode k (\<lambda>n. n\<lparr>parentNode := Some parentKey\<rparr>) nodes)))
      else linkNodes entries ks nodes)"








section \<open>Translations\<close>

text \<open>
  The translated messages that \<open>destructure\<close> gives for a locale: a message or a
  non-array object, since Structured JSON has no arrays. The entries of an object are in
  the order of \<open>Object.keys\<close>. A property that is added goes to the end, as it does in
  JavaScript for a key that is not an array index; an array index would go among the
  other indices, in numeric order, which the model does not follow. Nothing below depends
  on the order of the entries.
\<close>

datatype translated =
    TranslatedMessage PluralForms
  | TranslatedObject "(string \<times> translated) list"

text \<open>What \<open>toJSON\<close> returns, \<open>undefined\<close> apart: a string, an array or an object.\<close>

datatype json =
    JString string
  | JArray "json list"
  | JObject "(string \<times> json) list"

text \<open>\<open>i.toString()\<close> for an index \<open>i\<close>, and the test \<open>/^\d+$/\<close>.\<close>

fun decimal :: "nat \<Rightarrow> string" where
  "decimal n = (if n < 10 then [''0123456789'' ! n]
                else decimal (n div 10) @ [''0123456789'' ! (n mod 10)])"

declare decimal.simps [simp del]

definition isDigits :: "string \<Rightarrow> bool" where
  "isDigits s = (s \<noteq> [] \<and> list_all (\<lambda>c. c \<in> set ''0123456789'') s)"

text \<open>
  The own properties of a source object or array, in the order of \<open>Object.keys\<close>, and
  \<open>source[key]\<close> for a key among them, \<open>None\<close> where it is undefined. The properties that
  an object or an array inherits, and the \<open>length\<close> of an array, are not modelled.
\<close>

fun properties :: "messages \<Rightarrow> (string \<times> messages) list" where
  "properties (Object entries) = entries"
| "properties (Array elements) = zip (map decimal [0..<length elements]) elements"
| "properties (Message pf) = []"

definition property :: "messages \<Rightarrow> string \<Rightarrow> messages option" where
  "property source k = map_of (properties source) k"

text \<open>The first failure of a sequence of results, or all the values.\<close>

fun sequence :: "(error + 'a) list \<Rightarrow> error + 'a list" where
  "sequence [] = Inr []"
| "sequence (Inl e # rs) = Inl e"
| "sequence (Inr x # rs) = (case sequence rs of Inl e \<Rightarrow> Inl e | Inr xs \<Rightarrow> Inr (x # xs))"

text \<open>
  A \<open>Translations\<close> object is given by its \<open>_source\<close> and by the path of its
  \<open>_translated\<close> in the translated messages of the root, which stand for the state: a
  change made through one object is seen through every other one. \<open>lookupAt\<close> reads the
  value at a path; \<open>updateAt\<close> changes it.

  The model follows the source where the \<open>_translated\<close> of a \<open>Translations\<close> object is an
  object. Where it is a message, which needs translated messages that do not have the
  shape of the source messages, an operation on the \<open>Translations\<close> object fails in the
  model with a \<open>TypeError\<close>.
\<close>

fun lookupAt :: "string list \<Rightarrow> translated \<Rightarrow> translated option" where
  "lookupAt [] t = Some t"
| "lookupAt (k # ks) (TranslatedObject entries) =
     (case map_of entries k of None \<Rightarrow> None | Some v \<Rightarrow> lookupAt ks v)"
| "lookupAt (k # ks) (TranslatedMessage pf) = None"

fun updateAt :: "string list \<Rightarrow> (translated \<Rightarrow> translated) \<Rightarrow> translated \<Rightarrow> translated" where
  "updateAt [] f t = f t"
| "updateAt (k # ks) f (TranslatedObject entries) =
     TranslatedObject (map (\<lambda>(k', v). if k' = k then (k', updateAt ks f v) else (k', v)) entries)"
| "updateAt (k # ks) f (TranslatedMessage pf) = TranslatedMessage pf"



record Translations =
  pathOf :: "string list"
  sourceOf :: messages

text \<open>A \<open>Translation\<close> object: its parent and its key. Its \<open>source\<close> is \<open>parent._source[key]\<close>.\<close>

record Translation =
  parent :: Translations
  keyOf :: string

definition isArray :: "Translations \<Rightarrow> bool" where
  "isArray this = (case sourceOf this of Array elements \<Rightarrow> True | Object entries \<Rightarrow> False | Message pf \<Rightarrow> False)"

definition has :: "Translations \<Rightarrow> string \<Rightarrow> bool" where
  "has this k = (property (sourceOf this) k \<noteq> None)"

text \<open>The getter \<open>translated\<close> of a \<open>Translation\<close> object, \<open>None\<close> where it is undefined.\<close>

definition translatedOf :: "Translation \<Rightarrow> translated \<Rightarrow> translated option" where
  "translatedOf this root = lookupAt (pathOf (parent this) @ [keyOf this]) root"

text \<open>
  \<open>clear()\<close> and \<open>delete(key)\<close>, from the \<open>_source\<close> and the \<open>_translated\<close> of the object to
  the \<open>_translated\<close> after the call. In \<open>delete\<close>, \<open>this.get(key)\<close> is undefined where the
  source has no such key and a \<open>Translation\<close> object, which has no method \<open>clear\<close>, where
  the source has a message there.
\<close>

fun clear :: "messages \<Rightarrow> translated \<Rightarrow> error + translated" where
  "clear source (TranslatedObject entries) =
     (case sequence
             (map (\<lambda>(k, v).
                     case v of
                       TranslatedMessage pf \<Rightarrow>
                         (case emptyPluralForms (length (forms pf)) of
                            Inl e \<Rightarrow> Inl e
                          | Inr emptied \<Rightarrow> Inr (k, TranslatedMessage emptied))
                     | TranslatedObject nested \<Rightarrow>
                         (case property source k of
                            None \<Rightarrow> Inl TypeError
                          | Some (Message pf) \<Rightarrow> Inl TypeError
                          | Some sub \<Rightarrow>
                              (case clear sub v of
                                 Inl e \<Rightarrow> Inl e
                               | Inr cleared \<Rightarrow> Inr (k, cleared))))
                entries) of
        Inl e \<Rightarrow> Inl e
      | Inr cleared \<Rightarrow> Inr (TranslatedObject cleared))"
| "clear source (TranslatedMessage pf) = Inl TypeError"

text \<open>\<open>this.clear()\<close> in the state.\<close>

definition clearAt :: "Translations \<Rightarrow> translated \<Rightarrow> error + translated" where
  "clearAt this root =
     (case lookupAt (pathOf this) root of
        None \<Rightarrow> Inl TypeError
      | Some t \<Rightarrow>
          (case clear (sourceOf this) t of
             Inl e \<Rightarrow> Inl e
           | Inr cleared \<Rightarrow> Inr (updateAt (pathOf this) (\<lambda>t. cleared) root)))"

definition deletePartialTranslation :: "Translation \<Rightarrow> translated \<Rightarrow> error + translated" where
  "deletePartialTranslation this root =
     (if has (parent this) ''full'' \<or> isArray (parent this) then
        (case translatedOf this root of
           None \<Rightarrow> Inl TypeError
         | Some (TranslatedObject entries) \<Rightarrow> Inl TypeError
         | Some (TranslatedMessage pf) \<Rightarrow>
             if isEmpty pf then clearAt (parent this) root else Inr root)
      else Inr root)"


text \<open>
  \<open>toJSON(key)\<close> of a \<open>Translation\<close> object, given its \<open>source\<close> and its \<open>translated\<close>, and
  of a \<open>Translations\<close> object, given its \<open>_source\<close> and its \<open>_translated\<close>; \<open>None\<close> is the
  result \<open>undefined\<close>. \<open>keysLength\<close> is \<open>Object.keys(value).length\<close>. In the loop over an
  array, \<open>this.get(i)\<close> adds an empty object to the translated messages where an element
  of the array that is not a message has none; \<open>toJSON\<close> gives the result of the call,
  not this change. \<open>property_size\<close> is for the termination of \<open>toJSON\<close>.
\<close>

definition translationToJSON :: "PluralForms \<Rightarrow> translated option \<Rightarrow> string \<Rightarrow> error + json option" where
  "translationToJSON source tr k =
     (case tr of
        None \<Rightarrow> Inl TypeError
      | Some (TranslatedObject entries) \<Rightarrow> Inl TypeError
      | Some (TranslatedMessage pf) \<Rightarrow>
          if isEmpty pf then Inr None
          else if k = ''full'' \<and> length (forms source) \<noteq> 1
          then Inr (Some (JArray (map JString (forms pf))))
          else (case toVueI18n pf of
                  Inl e \<Rightarrow> Inl e
                | Inr s \<Rightarrow> Inr (Some (JString s))))"

fun keysLength :: "json \<Rightarrow> nat" where
  "keysLength (JString s) = length s"
| "keysLength (JArray values) = length values"
| "keysLength (JObject entries) = length entries"

lemma property_size: "property source k = Some sub \<Longrightarrow> size sub < size source"
proof (cases source)
  case (Object entries)
  assume "property source k = Some sub"
  with Object have "(k, sub) \<in> set entries" by (auto simp: property_def dest: map_of_SomeD)
  then have "size sub < Suc (size_list (size_prod (\<lambda>x. 0) size) entries)"
    by (induction entries) auto
  with Object show ?thesis by simp
next
  case (Array elements)
  assume "property source k = Some sub"
  with Array have "sub \<in> set elements"
    by (auto simp: property_def dest!: map_of_SomeD set_zip_rightD)
  then have "size sub < Suc (size_list size elements)"
    by (induction elements) auto
  with Array show ?thesis by simp
qed (simp add: property_def)

function toJSON :: "messages \<Rightarrow> translated \<Rightarrow> string \<Rightarrow> error + json option" where
  "toJSON (Array elements) (TranslatedObject entries) k =
     (case sequence
             (map (\<lambda>(i, element).
                     case element of
                       Message pf \<Rightarrow> translationToJSON pf (map_of entries i) i
                     | Object nested \<Rightarrow>
                         toJSON element
                           (case map_of entries i of None \<Rightarrow> TranslatedObject [] | Some v \<Rightarrow> v) i
                     | Array nested \<Rightarrow>
                         toJSON element
                           (case map_of entries i of None \<Rightarrow> TranslatedObject [] | Some v \<Rightarrow> v) i)
                (properties (Array elements))) of
        Inl e \<Rightarrow> Inl e
      | Inr result \<Rightarrow>
          (let emptyPluralForms = length (filter (\<lambda>v. v = None) result);
               emptyObjects =
                 length (filter (\<lambda>v. case v of None \<Rightarrow> False | Some j \<Rightarrow> keysLength j = 0) result)
           in if emptyPluralForms + emptyObjects = length elements
              then (if isDigits k then Inr (Some (JArray [])) else Inr None)
              else if emptyPluralForms \<noteq> 0 then Inl SparseArray
              else Inr (Some (JArray (List.map_filter (\<lambda>v. v) result)))))"
| "toJSON (Object sourceEntries) (TranslatedObject entries) k =
     (case sequence
             (map (\<lambda>(k', v).
                     case property (Object sourceEntries) k' of
                       None \<Rightarrow> Inl TypeError
                     | Some (Message pf) \<Rightarrow>
                         (case translationToJSON pf (Some v) k' of
                            Inl e \<Rightarrow> Inl e
                          | Inr value \<Rightarrow> Inr (k', value))
                     | Some (Object nested) \<Rightarrow>
                         (case toJSON (Object nested) v k' of
                            Inl e \<Rightarrow> Inl e
                          | Inr value \<Rightarrow> Inr (k', value))
                     | Some (Array nested) \<Rightarrow>
                         (case toJSON (Array nested) v k' of
                            Inl e \<Rightarrow> Inl e
                          | Inr value \<Rightarrow> Inr (k', value)))
                entries) of
        Inl e \<Rightarrow> Inl e
      | Inr values \<Rightarrow>
          (let result = List.map_filter (\<lambda>(k', value). map_option (Pair k') value) values
           in if result \<noteq> [] \<or> isDigits k then Inr (Some (JObject result)) else Inr None))"
| "toJSON (Message pf) (TranslatedObject entries) k = Inl TypeError"
| "toJSON source (TranslatedMessage pf) k = Inl TypeError"
  by pat_completeness auto
termination
  apply (relation "measure (\<lambda>(source, t, k). size source)")
  apply simp
  apply (auto dest!: set_zip_rightD property_size)
  subgoal for elements x by (induction elements) auto
  subgoal for elements x by (induction elements) auto
  done

declare toJSON.simps [simp del]






text \<open>
  What the passes are measured against: \<open>allEmpty t\<close> says that every message of the
  translated messages \<open>t\<close> is empty, and \<open>hasText j\<close> that a string occurs in \<open>j\<close>.
\<close>

fun allEmpty :: "translated \<Rightarrow> bool" where
  "allEmpty (TranslatedMessage pf) = isEmpty pf"
| "allEmpty (TranslatedObject entries) = (\<forall>(k, v)\<in>set entries. allEmpty v)"

fun hasText :: "json \<Rightarrow> bool" where
  "hasText (JString s) = True"
| "hasText (JArray values) = (\<exists>v\<in>set values. hasText v)"
| "hasText (JObject entries) = (\<exists>(k, v)\<in>set entries. hasText v)"

text \<open>
  \<open>reset t\<close> is \<open>t\<close> with every message replaced by the empty message of as many forms:
  the keys and the nesting of \<open>t\<close> are kept.
\<close>

fun reset :: "translated \<Rightarrow> translated" where
  "reset (TranslatedMessage pf) = TranslatedMessage (PluralForms (replicate (length (forms pf)) []))"
| "reset (TranslatedObject entries) = TranslatedObject (map (\<lambda>(k, v). (k, reset v)) entries)"

text \<open>
  \<open>clearable source t\<close> says that \<open>clear\<close> meets no failure on \<open>t\<close>: every message of
  \<open>t\<close> has a form, and every object in \<open>t\<close> is at a key where the source has an object
  or an array.
\<close>

fun clearable :: "messages \<Rightarrow> translated \<Rightarrow> bool" where
  "clearable source (TranslatedObject entries) =
     (\<forall>(k, v)\<in>set entries.
        case v of
          TranslatedMessage pf \<Rightarrow> forms pf \<noteq> []
        | TranslatedObject nested \<Rightarrow>
            (case property source k of
               None \<Rightarrow> False
             | Some (Message pf) \<Rightarrow> False
             | Some (Object es) \<Rightarrow> clearable (Object es) v
             | Some (Array xs) \<Rightarrow> clearable (Array xs) v))"
| "clearable source (TranslatedMessage pf) = False"

declare clearable.simps [simp del]



section \<open>Brace depth\<close>

text \<open>
  What the scan of \<open>fromTransifex\<close> is measured against. \<open>braceStep\<close> is the change of
  \<open>unmatchedBraces\<close> at one character, \<open>depthAfter u s\<close> its value after the characters of
  \<open>s\<close> from the value \<open>u\<close>, and \<open>staysOpen u s\<close> says that it is positive before each
  character of \<open>s\<close>. \<open>accepted s\<close> says that \<open>parseVars\<close> does not fail on \<open>s\<close>: every
  brace of \<open>s\<close> belongs to a match.
\<close>

definition braceStep :: "nat \<Rightarrow> char \<Rightarrow> nat" where
  "braceStep u c = (if c = CHR ''{'' then u + 1 else if c = CHR ''}'' then u - 1 else u)"

fun depthAfter :: "nat \<Rightarrow> string \<Rightarrow> nat" where
  "depthAfter u [] = u"
| "depthAfter u (c # cs) = depthAfter (braceStep u c) cs"

fun staysOpen :: "nat \<Rightarrow> string \<Rightarrow> bool" where
  "staysOpen u [] = True"
| "staysOpen u (c # cs) = (u > 0 \<and> staysOpen (braceStep u c) cs)"

definition accepted :: "string \<Rightarrow> bool" where
  "accepted s = (length (filter isBrace s) = 2 * length (matchVars s))"


section \<open>Properties of the variable extractor\<close>

lemma isToken_iff:
  "isToken t \<longleftrightarrow> (\<exists>w. t = CHR ''{'' # w @ ''}'' \<and> w \<noteq> [] \<and> list_all isWord w)"
proof
  assume "isToken t"
  then obtain cs where t: "t = CHR ''{'' # cs" and cs: "cs \<noteq> []" "last cs = CHR ''}''"
    "butlast cs \<noteq> []" "list_all isWord (butlast cs)"
    by (auto simp: isToken_def split: list.splits)
  from cs(1,2) have "cs = butlast cs @ ''}''" by (metis append_butlast_last_id)
  with t cs show "\<exists>w. t = CHR ''{'' # w @ ''}'' \<and> w \<noteq> [] \<and> list_all isWord w" by blast
next
  assume "\<exists>w. t = CHR ''{'' # w @ ''}'' \<and> w \<noteq> [] \<and> list_all isWord w"
  then show "isToken t" by (auto simp: isToken_def)
qed

lemma not_isWord_brace [simp]: "\<not> isWord CHR ''{''" "\<not> isWord CHR ''}''"
  by (simp_all add: isWord_def)

lemma occurrences_word_run:
  assumes "isToken t" "list_all isWord w"
  shows "occurrences t (w @ CHR ''}'' # r) = occurrences t r"
  using assms(2)
proof (induction w)
  case Nil
  from assms(1) show ?case by (auto simp: isToken_iff)
next
  case (Cons a w)
  from assms(1) Cons.prems have "\<not> prefix t (a # w @ CHR ''}'' # r)"
    by (auto simp: isToken_iff)
  with Cons show ?case by simp
qed

lemma word_run_unique:
  assumes "list_all isWord w'" "prefix (w' @ [CHR ''}'']) cs"
  shows "takeWhile isWord cs = w' \<and> (\<exists>r. dropWhile isWord cs = CHR ''}'' # r)"
proof -
  from assms(2) obtain r where "cs = w' @ CHR ''}'' # r" by (auto simp: prefix_def)
  with assms(1) show ?thesis
    by (simp add: list_all_iff)
qed

lemma token_prefix_iff:
  assumes "isToken t"
  shows "prefix t (CHR ''{'' # cs) \<longleftrightarrow>
    takeWhile isWord cs \<noteq> [] \<and> (\<exists>r. dropWhile isWord cs = CHR ''}'' # r) \<and>
    t = CHR ''{'' # takeWhile isWord cs @ [CHR ''}'']"
proof
  assume p: "prefix t (CHR ''{'' # cs)"
  from assms obtain w where t: "t = CHR ''{'' # w @ ''}''" and w: "w \<noteq> []" "list_all isWord w"
    by (auto simp: isToken_iff)
  from p t have "prefix (w @ [CHR ''}'']) cs" by simp
  from word_run_unique [OF w(2) this] t w
  show "takeWhile isWord cs \<noteq> [] \<and> (\<exists>r. dropWhile isWord cs = CHR ''}'' # r) \<and>
    t = CHR ''{'' # takeWhile isWord cs @ [CHR ''}'']" by auto
next
  assume a: "takeWhile isWord cs \<noteq> [] \<and> (\<exists>r. dropWhile isWord cs = CHR ''}'' # r) \<and>
    t = CHR ''{'' # takeWhile isWord cs @ [CHR ''}'']"
  then obtain r where r: "dropWhile isWord cs = CHR ''}'' # r" by blast
  have "cs = takeWhile isWord cs @ dropWhile isWord cs" by simp
  then have "cs = takeWhile isWord cs @ CHR ''}'' # r" using r by simp
  then have "prefix (takeWhile isWord cs @ [CHR ''}'']) cs"
    by (metis append.assoc append_Cons append_Nil prefixI)
  with a show "prefix t (CHR ''{'' # cs)" by simp
qed

text \<open>The matches are tokens, and each token is matched once for each of its occurrences.\<close>

lemma matchVars_tokens: "v \<in> set (matchVars s) \<Longrightarrow> isToken v"
proof (induction s rule: matchVars.induct)
  case 1
  then show ?case by simp
next
  case (2 c cs)
  have w: "list_all isWord (takeWhile isWord cs)"
    by (auto simp: list_all_iff dest: set_takeWhileD)
  show ?case
  proof (cases "c = CHR ''{''")
    case False
    then have eq: "matchVars (c # cs) = matchVars cs" by simp
    from "2.prems" [unfolded eq] show ?thesis by (rule "2.IH"(4) [OF False])
  next
    case True
    note c = True
    show ?thesis
    proof (cases "dropWhile isWord cs")
      case Nil
      have eq: "matchVars (c # cs) = matchVars cs"
        using c Nil by (simp del: dropWhile_eq_Nil_conv)
      from "2.prems" [unfolded eq] show ?thesis by (rule "2.IH"(1) [OF c Nil])
    next
      case (Cons d r)
      show ?thesis
      proof (cases "takeWhile isWord cs \<noteq> [] \<and> d = CHR ''}''")
        case False
        then have eq: "matchVars (c # cs) = matchVars cs"
          using c Cons by auto
        from "2.prems" [unfolded eq] show ?thesis by (rule "2.IH"(3) [OF c Cons False])
      next
        case True
        then have eq: "matchVars (c # cs) = (c # takeWhile isWord cs @ [d]) # matchVars r"
          using c Cons by simp
        from "2.prems" [unfolded eq] have "v = c # takeWhile isWord cs @ [d] \<or> v \<in> set (matchVars r)"
          by simp
        then show ?thesis
        proof
          assume "v = c # takeWhile isWord cs @ [d]"
          with c True w show ?thesis
            unfolding isToken_iff by blast
        next
          assume "v \<in> set (matchVars r)"
          then show ?thesis by (rule "2.IH"(2) [OF c Cons True])
        qed
      qed
    qed
  qed
qed

lemma count_matchVars:
  assumes "isToken t"
  shows "count_list (matchVars s) t = occurrences t s"
proof (induction s rule: matchVars.induct)
  case 1
  show ?case by simp
next
  case (2 c cs)
  show ?case
  proof (cases "c = CHR ''{''")
    case False
    with assms have "\<not> prefix t (c # cs)" by (auto simp: isToken_iff)
    with False 2 show ?thesis by simp
  next
    case True
    note c = True
    show ?thesis
    proof (cases "dropWhile isWord cs")
      case Nil
      with token_prefix_iff [OF assms, of cs] c have "\<not> prefix t (c # cs)" by simp
      moreover have "matchVars (c # cs) = matchVars cs"
        using c Nil by (simp del: dropWhile_eq_Nil_conv)
      moreover have "count_list (matchVars cs) t = occurrences t cs"
        using 2(1) [OF c Nil] .
      ultimately show ?thesis by simp
    next
      case (Cons d r)
      show ?thesis
      proof (cases "takeWhile isWord cs \<noteq> [] \<and> d = CHR ''}''")
        case False
        with token_prefix_iff [OF assms, of cs] c Cons have "\<not> prefix t (c # cs)" by auto
        moreover have "matchVars (c # cs) = matchVars cs"
          using c Cons False by auto
        moreover have "count_list (matchVars cs) t = occurrences t cs"
          using 2(3) [OF c Cons False] .
        ultimately show ?thesis by simp
      next
        case True
        have cs: "cs = takeWhile isWord cs @ CHR ''}'' # r"
          using Cons True takeWhile_dropWhile_id [of isWord cs] by simp
        have "occurrences t cs = occurrences t r"
          using occurrences_word_run [OF assms, of "takeWhile isWord cs" r] cs
          by (metis list_all_iff set_takeWhileD)
        moreover have "prefix t (c # cs) \<longleftrightarrow> t = c # takeWhile isWord cs @ [d]"
          using token_prefix_iff [OF assms, of cs] c Cons True by auto
        moreover have "count_list (matchVars r) t = occurrences t r"
          using 2(2) [OF c Cons True] .
        moreover have "matchVars (c # cs) = (c # takeWhile isWord cs @ [d]) # matchVars r"
          using c Cons True by simp
        ultimately show ?thesis by simp
      qed
    qed
  qed
qed

lemma parseVars_Inr: "parseVars s = Inr vs \<Longrightarrow> vs = sort (matchVars s)"
  by (simp add: parseVars_def Let_def split: if_splits)

text \<open>
  Claim C7, as amended. Where \<open>parseVars\<close> accepts a string, its output is sorted, holds
  tokens only, and holds every token once for each occurrence of the token in the string:
  the uses of one token are all kept, not collapsed into one.
\<close>

theorem parseVars_sorted_occurrences:
  assumes "parseVars s = Inr vs"
  shows "sorted vs \<and> (\<forall>v\<in>set vs. isToken v) \<and>
    (\<forall>t. isToken t \<longrightarrow> count_list vs t = occurrences t s)"
proof -
  from assms have vs: "vs = sort (matchVars s)" by (rule parseVars_Inr)
  have "\<And>t. count_list vs t = count_list (matchVars s) t"
    unfolding vs by (metis count_mset mset_sort)
  with vs show ?thesis
    by (auto simp: count_matchVars dest: matchVars_tokens)
qed

theorem parseVars_sorted_occurrences_witness:
  "parseVars ''{b} of {a} and {b}'' = Inr [''{a}'', ''{b}'', ''{b}''] \<and>
   sorted [''{a}'', ''{b}'', ''{b}''] \<and>
   isToken ''{b}'' \<and>
   count_list [''{a}'', ''{b}'', ''{b}''] ''{b}'' = occurrences ''{b}'' ''{b} of {a} and {b}''"
proof -
  have p: "parseVars ''{b} of {a} and {b}'' = Inr [''{a}'', ''{b}'', ''{b}'']"
    by (simp add: parseVars_def isWord_def isBrace_def)
  have t: "isToken ''{b}''"
    by (simp add: isToken_def isWord_def)
  note r = parseVars_sorted_occurrences [OF p]
  from r have s: "sorted [''{a}'', ''{b}'', ''{b}'']"
    by (rule conjunct1)
  have "count_list [''{a}'', ''{b}'', ''{b}''] ''{b}'' =
      occurrences ''{b}'' ''{b} of {a} and {b}''"
    by (rule r [THEN conjunct2, THEN conjunct2, rule_format, OF t])
  with p s t show ?thesis
    by (intro conjI)
qed

text \<open>
  Claim C7 as the specification states it fails: a string that uses a token twice and a
  string that uses it once have different outputs.
\<close>

theorem parseVars_duplicates_counterexample:
  "parseVars ''{a} and {a}'' = Inr [''{a}'', ''{a}''] \<and>
   parseVars ''{a}'' = Inr [''{a}''] \<and>
   parseVars ''{a} and {a}'' \<noteq> parseVars ''{a}''"
  by (simp add: parseVars_def isWord_def isBrace_def)


section \<open>Properties of the constructor\<close>

text \<open>
  Claim C10. The constructor fails on an empty list of forms; an instance that it returns
  holds the forms it was given, of which there is at least one, so that the form at index
  0 exists and \<open>isEmpty\<close> is the test that this form is the empty string.
\<close>

theorem newPluralForms_has_first_form:
  assumes "newPluralForms fs = Inr pf"
  shows "newPluralForms [] = Inl FormsCannotBeEmpty \<and> forms pf = fs \<and>
    0 < length (forms pf) \<and> isEmpty pf = (forms pf ! 0 = [])"
proof -
  from assms obtain form0 rest where fs: "fs = form0 # rest"
    by (cases fs) (simp_all add: newPluralForms_def)
  from assms have "pf = PluralForms fs"
    by (auto simp: newPluralForms_def fs split: sum.splits)
  with fs show ?thesis
    by (simp add: newPluralForms_def isEmpty_def)
qed

theorem newPluralForms_has_first_form_witness:
  "newPluralForms [''{n} row'', ''{n} rows''] = Inr (PluralForms [''{n} row'', ''{n} rows'']) \<and>
   newPluralForms [] = Inl FormsCannotBeEmpty \<and>
   forms (PluralForms [''{n} row'', ''{n} rows'']) = [''{n} row'', ''{n} rows''] \<and>
   0 < length (forms (PluralForms [''{n} row'', ''{n} rows''])) \<and>
   isEmpty (PluralForms [''{n} row'', ''{n} rows'']) =
     (forms (PluralForms [''{n} row'', ''{n} rows'']) ! 0 = [])"
proof -
  have c: "newPluralForms [''{n} row'', ''{n} rows''] = Inr (PluralForms [''{n} row'', ''{n} rows''])"
    by (simp add: newPluralForms_def parseVars_def isWord_def isBrace_def)
  from newPluralForms_has_first_form [OF c] show ?thesis
    using c by (intro conjI) (elim conjE, assumption)+
qed

section \<open>Properties of linked locale messages\<close>

lemma linkMatch_Some_iff:
  "linkMatch s = Some path \<longleftrightarrow>
     s = ''@:'' @ path \<and> path \<noteq> [] \<and> list_all (\<lambda>c. isWord c \<or> c = CHR ''.'') path"
proof
  assume "linkMatch s = Some path"
  then have p: "prefix ''@:'' s" and d: "drop 2 s = path" "path \<noteq> []"
    "list_all (\<lambda>c. isWord c \<or> c = CHR ''.'') path"
    by (auto simp: linkMatch_def split: if_splits)
  from p obtain r where "s = ''@:'' @ r" by (auto simp: prefix_def)
  with d show "s = ''@:'' @ path \<and> path \<noteq> [] \<and> list_all (\<lambda>c. isWord c \<or> c = CHR ''.'') path"
    by simp
next
  assume "s = ''@:'' @ path \<and> path \<noteq> [] \<and> list_all (\<lambda>c. isWord c \<or> c = CHR ''.'') path"
  then show "linkMatch s = Some path"
    by (simp add: linkMatch_def)
qed

lemma prefix_includesStr: "prefix sub s \<Longrightarrow> includesStr s sub"
  by (cases s) simp_all

text \<open>
  Claim C6, as amended. \<open>pathOfLinkedMessage\<close> returns the path, split at the dots, of a
  message whose only form is \<open>@:\<close> followed by one or more word characters and dots.
  For any other message it fails where some form contains \<open>@:\<close>, also where the message
  has a single form, and it returns null where no form contains \<open>@:\<close>.
\<close>

theorem pathOfLinkedMessage_cases:
  "(forms pf = [''@:'' @ path] \<and> path \<noteq> [] \<and> list_all (\<lambda>c. isWord c \<or> c = CHR ''.'') path
      \<longrightarrow> pathOfLinkedMessage pf = Inr (Some (split path ''.''))) \<and>
   ((\<nexists>p. forms pf = [''@:'' @ p] \<and> p \<noteq> [] \<and> list_all (\<lambda>c. isWord c \<or> c = CHR ''.'') p) \<and>
    (\<exists>form\<in>set (forms pf). includesStr form ''@:'')
      \<longrightarrow> pathOfLinkedMessage pf = Inl UnexpectedLinkedLocaleMessage) \<and>
   ((\<forall>form\<in>set (forms pf). \<not> includesStr form ''@:'')
      \<longrightarrow> pathOfLinkedMessage pf = Inr None)"
proof (intro conjI impI)
  assume "forms pf = [''@:'' @ path] \<and> path \<noteq> [] \<and> list_all (\<lambda>c. isWord c \<or> c = CHR ''.'') path"
  then have "forms pf = [''@:'' @ path]" "linkMatch (''@:'' @ path) = Some path"
    by (simp_all add: linkMatch_Some_iff)
  then show "pathOfLinkedMessage pf = Inr (Some (split path ''.''))"
    by (simp add: pathOfLinkedMessage_def)
next
  assume a: "(\<nexists>p. forms pf = [''@:'' @ p] \<and> p \<noteq> [] \<and> list_all (\<lambda>c. isWord c \<or> c = CHR ''.'') p) \<and>
    (\<exists>form\<in>set (forms pf). includesStr form ''@:'')"
  have "(case forms pf of [form0] \<Rightarrow> linkMatch form0 | fs \<Rightarrow> None) = None"
  proof (cases "forms pf")
    case (Cons form0 rest)
    show ?thesis
    proof (cases rest)
      case Nil
      with Cons a have "linkMatch form0 = None"
        by (cases "linkMatch form0") (auto simp: linkMatch_Some_iff)
      with Cons Nil show ?thesis by simp
    qed (simp add: Cons)
  qed simp
  with a show "pathOfLinkedMessage pf = Inl UnexpectedLinkedLocaleMessage"
    by (simp add: pathOfLinkedMessage_def list_ex_iff)
next
  assume a: "\<forall>form\<in>set (forms pf). \<not> includesStr form ''@:''"
  have "(case forms pf of [form0] \<Rightarrow> linkMatch form0 | fs \<Rightarrow> None) = None"
  proof (cases "forms pf")
    case (Cons form0 rest)
    show ?thesis
    proof (cases rest)
      case Nil
      from Cons a have "\<not> includesStr form0 ''@:''" by simp
      then have "\<not> prefix ''@:'' form0" by (auto dest: prefix_includesStr)
      then have "linkMatch form0 = None" by (simp add: linkMatch_def)
      with Cons Nil show ?thesis by simp
    qed (simp add: Cons)
  qed simp
  with a show "pathOfLinkedMessage pf = Inr None"
    by (simp add: pathOfLinkedMessage_def list_ex_iff)
qed

theorem pathOfLinkedMessage_cases_witness:
  "pathOfLinkedMessage (PluralForms [''@:a.b'']) = Inr (Some [''a'', ''b'']) \<and>
   pathOfLinkedMessage (PluralForms [''one @:a.b'', ''many'']) = Inl UnexpectedLinkedLocaleMessage \<and>
   pathOfLinkedMessage (PluralForms [''one'', ''many'']) = Inr None"
proof -
  have "pathOfLinkedMessage (PluralForms [''@:'' @ ''a.b'']) = Inr (Some (split ''a.b'' ''.''))"
    by (rule pathOfLinkedMessage_cases [of "PluralForms [''@:'' @ ''a.b'']" "''a.b''",
          THEN conjunct1, rule_format])
       (simp add: isWord_def)
  then have 1: "pathOfLinkedMessage (PluralForms [''@:a.b'']) = Inr (Some [''a'', ''b''])"
    by simp
  have 2: "pathOfLinkedMessage (PluralForms [''one @:a.b'', ''many'']) =
      Inl UnexpectedLinkedLocaleMessage"
    by (rule pathOfLinkedMessage_cases [of "PluralForms [''one @:a.b'', ''many'']" "[]",
          THEN conjunct2, THEN conjunct1, rule_format])
       simp
  have 3: "pathOfLinkedMessage (PluralForms [''one'', ''many'']) = Inr None"
    by (rule pathOfLinkedMessage_cases [of "PluralForms [''one'', ''many'']" "[]",
          THEN conjunct2, THEN conjunct2, rule_format])
       auto
  from 1 2 3 show ?thesis by (intro conjI)
qed

text \<open>
  Claim C6 as the specification states it fails: a message with a single form that
  contains \<open>@:\<close> without being a link as a whole makes \<open>pathOfLinkedMessage\<close> fail; it
  does not return null.
\<close>

theorem pathOfLinkedMessage_single_form_counterexample:
  "length (forms (PluralForms [''see @:a.b''])) = 1 \<and>
   linkMatch ''see @:a.b'' = None \<and>
   pathOfLinkedMessage (PluralForms [''see @:a.b'']) = Inl UnexpectedLinkedLocaleMessage"
  by (simp add: pathOfLinkedMessage_def linkMatch_def)

section \<open>Properties of the validation and of the plural categories\<close>

lemma parseVars_error: "parseVars s = Inl e \<Longrightarrow> e = UnexpectedBrace"
  by (simp add: parseVars_def Let_def split: if_splits)

lemma firstFormVars_error: "firstFormVars pf = Inl e \<Longrightarrow> e = TypeError \<or> e = UnexpectedBrace"
  by (auto simp: firstFormVars_def split: list.splits dest: parseVars_error)

lemma checkTranslatedForms_error:
  "checkTranslatedForms warn path sourceForms fs = Inl e \<Longrightarrow> e = UnexpectedLinkedLocaleMessage"
  by (induction fs arbitrary: sourceForms) (auto split: if_splits sum.splits)

lemma checkForms_error:
  "checkForms form0 vars fs = Inl e \<Longrightarrow>
     e = UnexpectedEmptyPluralForm \<or> e = UnexpectedBrace \<or> e = DifferentVariablesInForms"
  by (induction fs) (auto split: if_splits sum.splits dest: parseVars_error)

lemma newPluralForms_error:
  "newPluralForms fs = Inl e \<Longrightarrow>
     e = FormsCannotBeEmpty \<or> e = UnexpectedEmptyPluralForm \<or> e = UnexpectedBrace \<or>
     e = DifferentVariablesInForms"
  by (auto simp: newPluralForms_def split: list.splits sum.splits
        dest: parseVars_error checkForms_error)

text \<open>
  Claim C9. For a locale of the table whose list of plural categories is not empty, as the
  lists of \<open>Intl.PluralRules\<close> are, validation of a translation that is not null fails
  with the pluralization mismatch if and only if the locale has more than one plural
  category and exactly one of the source and the translation has a single form. For a
  locale with one plural category it never fails with that error.
\<close>

theorem validateTranslation_pluralization:
  assumes "locales intl locale = Some options" and "pluralCategories options \<noteq> []"
  shows "(validateTranslation intl locale source (Some tr) path = Inl PluralizationMismatch) =
           (1 < length (pluralCategories options) \<and>
            (length (forms source) = 1) \<noteq> (length (forms tr) = 1)) \<and>
         (length (pluralCategories options) = 1 \<longrightarrow>
            validateTranslation intl locale source (Some tr) path \<noteq> Inl PluralizationMismatch)"
proof -
  let ?mismatch = "length (pluralCategories options) \<noteq> 1 \<and>
    (length (forms source) \<noteq> 1) \<noteq> (length (forms tr) \<noteq> 1)"
  have more: "length (pluralCategories options) \<noteq> 1 \<longleftrightarrow> 1 < length (pluralCategories options)"
    using assms(2) by (cases "pluralCategories options") auto
  have "validateTranslation intl locale source (Some tr) path = Inl PluralizationMismatch
      \<longleftrightarrow> ?mismatch"
  proof (cases ?mismatch)
    case True
    then show ?thesis using assms(1) by (simp add: validateTranslation_def)
  next
    case False
    have "validateTranslation intl locale source (Some tr) path \<noteq> Inl PluralizationMismatch"
    proof
      assume "validateTranslation intl locale source (Some tr) path = Inl PluralizationMismatch"
      with False assms(1) show False
        by (auto simp: validateTranslation_def split: if_splits sum.splits
              dest: firstFormVars_error checkTranslatedForms_error)
    qed
    with False show ?thesis by blast
  qed
  with more show ?thesis by auto
qed


lemmas eval_locales = locales_def localesSource_def normalize_def
lemmas eval_parseVars = parseVars_def isWord_def isBrace_def

theorem validateTranslation_pluralization_witness:
  "locales (\<lambda>l. [''other'']) ''fr'' = Some \<lparr>pluralCategories = [''one'', ''other''], warnVariableSeparator = True\<rparr> \<and>
   validateTranslation (\<lambda>l. [''other'']) ''fr'' (PluralForms [''{count} items''])
     (Some (PluralForms [''{count} chose'', ''{count} choses''])) [''a''] = Inl PluralizationMismatch \<and>
   locales (\<lambda>l. [''other'']) ''ja'' = Some \<lparr>pluralCategories = [''other''], warnVariableSeparator = False\<rparr> \<and>
   validateTranslation (\<lambda>l. [''other'']) ''ja'' (PluralForms [''{count} items''])
     (Some (PluralForms [''{count} a'', ''{count} b''])) [''a''] \<noteq> Inl PluralizationMismatch"
proof -
  let ?intl = "\<lambda>l::string. [''other'']"
  let ?fr = "\<lparr>pluralCategories = [''one'', ''other''], warnVariableSeparator = True\<rparr>"
  let ?ja = "\<lparr>pluralCategories = [''other''], warnVariableSeparator = False\<rparr>"
  have fr: "locales ?intl ''fr'' = Some ?fr"
    by (simp add: eval_locales)
  have ja: "locales ?intl ''ja'' = Some ?ja"
    by (simp add: eval_locales)
  have 1: "validateTranslation ?intl ''fr'' (PluralForms [''{count} items''])
     (Some (PluralForms [''{count} chose'', ''{count} choses''])) [''a''] = Inl PluralizationMismatch"
    using validateTranslation_pluralization [OF fr, of "PluralForms [''{count} items'']"
        "PluralForms [''{count} chose'', ''{count} choses'']" "[''a'']"]
    by simp
  have 2: "validateTranslation ?intl ''ja'' (PluralForms [''{count} items''])
     (Some (PluralForms [''{count} a'', ''{count} b''])) [''a''] \<noteq> Inl PluralizationMismatch"
    using validateTranslation_pluralization [OF ja, of "PluralForms [''{count} items'']"
        "PluralForms [''{count} a'', ''{count} b'']" "[''a'']"]
    by simp
  from fr 1 ja 2 show ?thesis by (intro conjI)
qed

text \<open>
  Claim C4. For a locale of the table and a translation that is not empty, validation
  fails where the set of variable tokens of the translation differs from that of the
  source; with the numbers of forms in parity, it fails with the variable mismatch exactly
  where the sorted token lists differ. For the source \<open>{count} items\<close>, a translation
  with the variables \<open>{count}\<close> and \<open>{n}\<close> fails with the variable mismatch and a
  translation with \<open>{count}\<close> alone succeeds.
\<close>

theorem validateTranslation_variables:
  assumes "locales intl locale = Some options"
    and "\<not> isEmpty tr"
    and "firstFormVars source = Inr sourceVars"
    and "firstFormVars tr = Inr translatedVars"
  shows "(set sourceVars \<noteq> set translatedVars \<longrightarrow>
           validateTranslation intl locale source (Some tr) path = Inl PluralizationMismatch \<or>
           validateTranslation intl locale source (Some tr) path = Inl DifferentVariablesInTranslation) \<and>
         ((length (forms source) = 1) = (length (forms tr) = 1) \<longrightarrow>
           (validateTranslation intl locale source (Some tr) path = Inl DifferentVariablesInTranslation)
             = (sourceVars \<noteq> translatedVars)) \<and>
         validateTranslation intl locale (PluralForms [''{count} items''])
           (Some (PluralForms [''{count} of {n}''])) path = Inl DifferentVariablesInTranslation \<and>
         validateTranslation intl locale (PluralForms [''{count} items''])
           (Some (PluralForms [''{count} elementos''])) path = Inr []"
proof (intro conjI impI)
  assume "set sourceVars \<noteq> set translatedVars"
  then have "sourceVars \<noteq> translatedVars" by auto
  with assms show
    "validateTranslation intl locale source (Some tr) path = Inl PluralizationMismatch \<or>
     validateTranslation intl locale source (Some tr) path = Inl DifferentVariablesInTranslation"
    by (simp add: validateTranslation_def)
next
  assume "(length (forms source) = 1) = (length (forms tr) = 1)"
  with assms show
    "(validateTranslation intl locale source (Some tr) path = Inl DifferentVariablesInTranslation)
       = (sourceVars \<noteq> translatedVars)"
    by (auto simp: validateTranslation_def dest: checkTranslatedForms_error)
next
  from assms(1) show "validateTranslation intl locale (PluralForms [''{count} items''])
      (Some (PluralForms [''{count} of {n}''])) path = Inl DifferentVariablesInTranslation"
    by (simp add: validateTranslation_def isEmpty_def firstFormVars_def eval_parseVars)
next
  from assms(1) show "validateTranslation intl locale (PluralForms [''{count} items''])
      (Some (PluralForms [''{count} elementos''])) path = Inr []"
    by (simp add: validateTranslation_def isEmpty_def firstFormVars_def eval_parseVars
          isSeparator_def)
qed

theorem validateTranslation_variables_witness:
  "locales (\<lambda>l. [''one'', ''other'']) ''es'' =
     Some \<lparr>pluralCategories = [''one'', ''other''], warnVariableSeparator = True\<rparr> \<and>
   \<not> isEmpty (PluralForms [''{n} de {count}'']) \<and>
   firstFormVars (PluralForms [''{count} items'']) = Inr [''{count}''] \<and>
   firstFormVars (PluralForms [''{n} de {count}'']) = Inr [''{count}'', ''{n}''] \<and>
   set [''{count}''] \<noteq> set [''{count}'', ''{n}''] \<and>
   validateTranslation (\<lambda>l. [''one'', ''other'']) ''es'' (PluralForms [''{count} items''])
     (Some (PluralForms [''{n} de {count}''])) [''a''] = Inl DifferentVariablesInTranslation \<and>
   validateTranslation (\<lambda>l. [''one'', ''other'']) ''es'' (PluralForms [''{count} items''])
     (Some (PluralForms [''{count} elementos''])) [''a''] = Inr []"
proof -
  let ?intl = "\<lambda>l::string. [''one'', ''other'']"
  have es: "locales ?intl ''es'' =
      Some \<lparr>pluralCategories = [''one'', ''other''], warnVariableSeparator = True\<rparr>"
    by (simp add: eval_locales)
  have ne: "\<not> isEmpty (PluralForms [''{n} de {count}''])"
    by (simp add: isEmpty_def)
  have sv: "firstFormVars (PluralForms [''{count} items'']) = Inr [''{count}'']"
    by (simp add: firstFormVars_def eval_parseVars)
  have tv: "firstFormVars (PluralForms [''{n} de {count}'']) = Inr [''{count}'', ''{n}'']"
    by (simp add: firstFormVars_def eval_parseVars)
  have d: "set [''{count}''] \<noteq> set [''{count}'', ''{n}'']"
    by auto
  note t = validateTranslation_variables [OF es ne sv tv, of "[''a'']"]
  have 1: "validateTranslation ?intl ''es'' (PluralForms [''{count} items''])
     (Some (PluralForms [''{n} de {count}''])) [''a''] = Inl DifferentVariablesInTranslation"
    using t [THEN conjunct2, THEN conjunct1] by simp
  have 2: "validateTranslation ?intl ''es'' (PluralForms [''{count} items''])
     (Some (PluralForms [''{count} elementos''])) [''a''] = Inr []"
    by (rule t [THEN conjunct2, THEN conjunct2, THEN conjunct2])
  from es ne sv tv d 1 2 show ?thesis by (intro conjI)
qed

lemma newPluralForms_not_mismatch: "newPluralForms fs \<noteq> Inl (CategoryMismatch expected found)"
  by (auto dest: newPluralForms_error)

text \<open>
  Claim C3, as amended. For a locale of the table and a string with the ICU plural
  wrapper whose categories and forms are parsed without error, \<open>fromTransifex\<close> fails
  with the category mismatch if and only if the sorted list of the parsed categories,
  repetitions kept, differs from the list of plural categories of the locale. So it fails
  wherever the two differ as sets.
\<close>

theorem fromTransifex_category_mismatch:
  assumes "locales intl locale = Some options"
    and "icuMatch string"
    and "parsePlural string (length icuOpen) = Inr (categories, fs)"
  shows "((\<exists>expected found. fromTransifex intl string locale = Inl (CategoryMismatch expected found))
           = (sort categories \<noteq> pluralCategories options)) \<and>
         (set categories \<noteq> set (pluralCategories options) \<longrightarrow>
            fromTransifex intl string locale =
              Inl (CategoryMismatch (pluralCategories options) (sort categories)))"
proof -
  have "set categories \<noteq> set (pluralCategories options) \<Longrightarrow>
      sort categories \<noteq> pluralCategories options"
    by (metis set_sort)
  with assms show ?thesis
    by (auto simp: fromTransifex_def newPluralForms_not_mismatch)
qed

lemmas eval_fromTransifex = fromTransifex_def icuMatch_def icuOpen_def parsePlural.simps
  scanBraces.simps formMatch_def isLower_def slice_def

theorem fromTransifex_category_mismatch_witness:
  "locales (\<lambda>l. [''other'']) ''fr'' =
     Some \<lparr>pluralCategories = [''one'', ''other''], warnVariableSeparator = True\<rparr> \<and>
   icuMatch ''{count, plural, other {a}}'' \<and>
   parsePlural ''{count, plural, other {a}}'' (length icuOpen) = Inr ([''other''], [''a'']) \<and>
   set [''other''] \<noteq> set [''one'', ''other''] \<and>
   fromTransifex (\<lambda>l. [''other'']) ''{count, plural, other {a}}'' ''fr'' =
     Inl (CategoryMismatch [''one'', ''other''] [''other''])"
proof -
  let ?intl = "\<lambda>l::string. [''other'']"
  have fr: "locales ?intl ''fr'' =
      Some \<lparr>pluralCategories = [''one'', ''other''], warnVariableSeparator = True\<rparr>"
    by (simp add: eval_locales)
  have m: "icuMatch ''{count, plural, other {a}}''"
    by (simp add: icuMatch_def icuOpen_def)
  have p: "parsePlural ''{count, plural, other {a}}'' (length icuOpen) = Inr ([''other''], [''a''])"
    by (simp add: eval_fromTransifex)
  have d: "set [''other''] \<noteq> set [''one'', ''other'']"
    by auto
  have "fromTransifex ?intl ''{count, plural, other {a}}'' ''fr'' =
     Inl (CategoryMismatch [''one'', ''other''] [''other''])"
    using fromTransifex_category_mismatch [OF fr m p, THEN conjunct2] d by simp
  with fr m p d show ?thesis by (intro conjI)
qed

text \<open>
  Claim C3 as the specification states it fails: the categories \<open>one\<close>, \<open>one\<close> and
  \<open>other\<close> are the set of categories of the locale \<open>fr\<close>, and \<open>fromTransifex\<close> fails with
  the category mismatch.
\<close>

theorem fromTransifex_same_set_counterexample:
  "locales (\<lambda>l. [''other'']) ''fr'' =
     Some \<lparr>pluralCategories = [''one'', ''other''], warnVariableSeparator = True\<rparr> \<and>
   icuMatch ''{count, plural, one {a} one {b} other {c}}'' \<and>
   parsePlural ''{count, plural, one {a} one {b} other {c}}'' (length icuOpen) =
     Inr ([''one'', ''one'', ''other''], [''a'', ''b'', ''c'']) \<and>
   set [''one'', ''one'', ''other''] = set [''one'', ''other''] \<and>
   fromTransifex (\<lambda>l. [''other'']) ''{count, plural, one {a} one {b} other {c}}'' ''fr'' =
     Inl (CategoryMismatch [''one'', ''other''] [''one'', ''one'', ''other''])"
  by (simp add: eval_locales eval_fromTransifex)

section \<open>Properties of the component interpolation tree\<close>

lemma map_of_updateNode:
  "map_of (updateNode k f nodes) k' =
     (if k' = k then map_option f (map_of nodes k) else map_of nodes k')"
  by (induction nodes) (auto simp: updateNode_def)







lemma linkNodes_dom:
  "linkNodes entries ks nodes = Inr nodes' \<Longrightarrow> dom (map_of nodes') = dom (map_of nodes)"
proof (induction ks arbitrary: nodes)
  case (Cons k ks)
  show ?case
  proof (cases "k = ''full''")
    case True
    with Cons show ?thesis by simp
  next
    case False
    with Cons.prems obtain p where p: "findParent entries (''{'' @ k @ ''}'') = Inr (Some p)"
      and l: "linkNodes entries ks
               (updateNode p (\<lambda>n. n\<lparr>childNodes := childNodes n @ [k]\<rparr>)
                  (updateNode k (\<lambda>n. n\<lparr>parentNode := Some p\<rparr>) nodes)) = Inr nodes'"
      by (auto split: sum.splits option.splits)
    from Cons.IH [OF l] show ?thesis
      by (auto simp: map_of_updateNode dom_def split: if_splits)
  qed
qed simp






















section \<open>Properties of the deletion of partial translations\<close>

lemma sequence_Inr: "sequence rs = Inr xs \<Longrightarrow> rs = map Inr xs"
  by (induction rs arbitrary: xs rule: sequence.induct) (auto split: sum.splits)

lemma sequence_map_Inr:
  assumes "sequence (map f es) = Inr xs" and "x \<in> set xs"
  shows "\<exists>e\<in>set es. f e = Inr x"
proof -
  from assms(1) have "map f es = map Inr xs" by (rule sequence_Inr)
  then have "Inr x \<in> set (map f es)" using assms(2) by simp
  then show ?thesis by auto
qed

lemma sequence_map_Inr':
  assumes "sequence (map f es) = Inr xs" and "e \<in> set es"
  shows "\<exists>x\<in>set xs. f e = Inr x"
proof -
  from assms(1) have "map f es = map Inr xs" by (rule sequence_Inr)
  moreover from assms(2) have "f e \<in> set (map f es)" by simp
  ultimately show ?thesis by auto
qed

lemma parseVars_Nil: "parseVars [] = Inr []"
  by (simp add: parseVars_def)

lemma checkForms_replicate: "checkForms [] [] (replicate n []) = Inr ()"
  by (induction n) (simp_all add: parseVars_Nil)

lemma emptyPluralForms_eq:
  "emptyPluralForms n = (if n = 0 then Inl FormsCannotBeEmpty else Inr (PluralForms (replicate n [])))"
  by (cases n) (simp_all add: emptyPluralForms_def newPluralForms_def parseVars_Nil checkForms_replicate)

lemma emptyPluralForms_isEmpty: "emptyPluralForms n = Inr pf \<Longrightarrow> isEmpty pf"
  by (cases n) (auto simp: emptyPluralForms_eq isEmpty_def)

lemma clear_allEmpty: "clear source t = Inr t' \<Longrightarrow> allEmpty t'"
proof (induction source t arbitrary: t' rule: clear.induct)
  case (1 source entries)
  from "1.prems" obtain cleared where t': "t' = TranslatedObject cleared"
    and s: "sequence
             (map (\<lambda>(k, v).
                     case v of
                       TranslatedMessage pf \<Rightarrow>
                         (case emptyPluralForms (length (forms pf)) of
                            Inl e \<Rightarrow> Inl e
                          | Inr emptied \<Rightarrow> Inr (k, TranslatedMessage emptied))
                     | TranslatedObject nested \<Rightarrow>
                         (case property source k of
                            None \<Rightarrow> Inl TypeError
                          | Some (Message pf) \<Rightarrow> Inl TypeError
                          | Some sub \<Rightarrow>
                              (case clear sub v of
                                 Inl e \<Rightarrow> Inl e
                               | Inr cleared \<Rightarrow> Inr (k, cleared))))
                entries) = Inr cleared"
    by (auto split: sum.splits)
  have "allEmpty v'" if "(k', v') \<in> set cleared" for k' v'
  proof -
    from sequence_map_Inr [OF s that] obtain k v where kv: "(k, v) \<in> set entries"
      and r: "(case v of
                       TranslatedMessage pf \<Rightarrow>
                         (case emptyPluralForms (length (forms pf)) of
                            Inl e \<Rightarrow> Inl e
                          | Inr emptied \<Rightarrow> Inr (k, TranslatedMessage emptied))
                     | TranslatedObject nested \<Rightarrow>
                         (case property source k of
                            None \<Rightarrow> Inl TypeError
                          | Some (Message pf) \<Rightarrow> Inl TypeError
                          | Some sub \<Rightarrow>
                              (case clear sub v of
                                 Inl e \<Rightarrow> Inl e
                               | Inr cleared \<Rightarrow> Inr (k, cleared)))) = Inr (k', v')"
      by auto
    show ?thesis
    proof (cases v)
      case (TranslatedMessage pf)
      with r show ?thesis
        by (auto split: sum.splits dest: emptyPluralForms_isEmpty)
    next
      case (TranslatedObject nested)
      with r obtain sub where sub: "property source k = Some sub" and c: "clear sub v = Inr v'"
        and nm: "\<And>pf. sub \<noteq> Message pf"
        by (auto split: option.splits messages.splits sum.splits)
      show ?thesis
      proof (cases sub)
        case (Message pf)
        with nm [of pf] show ?thesis by simp
      next
        case (Object x)
        from "1.IH"(1) [OF kv refl TranslatedObject sub Object] c Object show ?thesis by simp
      next
        case (Array x)
        from "1.IH"(2) [OF kv refl TranslatedObject sub Array] c Array show ?thesis by simp
      qed
    qed
  qed
  with t' show ?case by auto
qed simp


lemma set_map_filter:
  "set (List.map_filter f xs) = {y. \<exists>x\<in>set xs. f x = Some y}"
  by (induction xs) (auto simp: map_filter_simps split: option.splits)

lemma translationToJSON_empty:
  assumes "\<And>v. tr = Some v \<Longrightarrow> allEmpty v"
  shows "translationToJSON pf tr k \<noteq> Inr (Some j)"
  using assms
  by (auto simp: translationToJSON_def split: option.splits translated.splits)

lemma allEmpty_sub:
  assumes "allEmpty (TranslatedObject entries)"
  shows "allEmpty (case map_of entries i of None \<Rightarrow> TranslatedObject [] | Some v \<Rightarrow> v)"
  using assms by (auto split: option.splits dest: map_of_SomeD)

lemma toJSON_noText:
  "allEmpty t \<Longrightarrow> toJSON source t k = Inr (Some j) \<Longrightarrow> \<not> hasText j"
proof (induction source t k arbitrary: j rule: toJSON.induct)
  case (1 elements entries k)
  define F where "F = (\<lambda>(i, element).
                     case element of
                       Message pf \<Rightarrow> translationToJSON pf (map_of entries i) i
                     | Object nested \<Rightarrow>
                         toJSON element
                           (case map_of entries i of None \<Rightarrow> TranslatedObject [] | Some v \<Rightarrow> v) i
                     | Array nested \<Rightarrow>
                         toJSON element
                           (case map_of entries i of None \<Rightarrow> TranslatedObject [] | Some v \<Rightarrow> v) i)"
  from "1.prems"(2) obtain result where s: "sequence (map F (properties (Array elements))) = Inr result"
    and j: "j = JArray [] \<or> j = JArray (List.map_filter (\<lambda>v. v) result)"
    unfolding F_def by (auto simp: toJSON.simps Let_def split: sum.splits if_splits)
  have "\<not> hasText j'" if "Some j' \<in> set result" for j'
  proof -
    from sequence_map_Inr [OF s that] obtain i element
      where ie: "(i, element) \<in> set (properties (Array elements))" and r: "F (i, element) = Inr (Some j')"
      by auto
    let ?sub = "case map_of entries i of None \<Rightarrow> TranslatedObject [] | Some v \<Rightarrow> v"
    have sub: "allEmpty ?sub" using "1.prems"(1) by (rule allEmpty_sub)
    show ?thesis
    proof (cases element)
      case (Message pf)
      have "translationToJSON pf (map_of entries i) i \<noteq> Inr (Some j')"
        using "1.prems"(1) by (intro translationToJSON_empty) (auto dest: map_of_SomeD)
      with r Message show ?thesis by (simp add: F_def)
    next
      case (Object nested)
      with r have "toJSON element ?sub i = Inr (Some j')" by (simp add: F_def)
      from "1.IH"(1) [OF ie refl Object sub this] show ?thesis .
    next
      case (Array nested)
      with r have "toJSON element ?sub i = Inr (Some j')" by (simp add: F_def)
      from "1.IH"(2) [OF ie refl Array sub this] show ?thesis .
    qed
  qed
  with j show ?case by (auto simp: set_map_filter)
next
  case (2 sourceEntries entries k)
  define G where "G = (\<lambda>(k', v).
                     case property (Object sourceEntries) k' of
                       None \<Rightarrow> Inl TypeError
                     | Some (Message pf) \<Rightarrow>
                         (case translationToJSON pf (Some v) k' of
                            Inl e \<Rightarrow> Inl e
                          | Inr value \<Rightarrow> Inr (k', value))
                     | Some (Object nested) \<Rightarrow>
                         (case toJSON (Object nested) v k' of
                            Inl e \<Rightarrow> Inl e
                          | Inr value \<Rightarrow> Inr (k', value))
                     | Some (Array nested) \<Rightarrow>
                         (case toJSON (Array nested) v k' of
                            Inl e \<Rightarrow> Inl e
                          | Inr value \<Rightarrow> Inr (k', value)))"
  from "2.prems"(2) obtain vals where s: "sequence (map G entries) = Inr vals"
    and j: "j = JObject (List.map_filter (\<lambda>(k', value). map_option (Pair k') value) vals)"
    unfolding G_def by (auto simp: toJSON.simps Let_def split: sum.splits if_splits)
  have "\<not> hasText j'" if "(k', Some j') \<in> set vals" for k' j'
  proof -
    from sequence_map_Inr [OF s that] obtain k0 v
      where kv: "(k0, v) \<in> set entries" and r: "G (k0, v) = Inr (k', Some j')"
      by auto
    from kv "2.prems"(1) have v: "allEmpty v" by auto
    show ?thesis
    proof (cases "property (Object sourceEntries) k0")
      case None
      with r show ?thesis by (simp add: G_def)
    next
      case (Some sub)
      show ?thesis
      proof (cases sub)
        case (Message pf)
        have "translationToJSON pf (Some v) k0 \<noteq> Inr (Some j')"
          using v by (intro translationToJSON_empty) simp
        with r Some Message show ?thesis by (auto simp: G_def split: sum.splits)
      next
        case (Object nested)
        with r Some have "toJSON (Object nested) v k0 = Inr (Some j')"
          by (auto simp: G_def split: sum.splits)
        from "2.IH"(1) [OF kv refl Some Object v this] show ?thesis .
      next
        case (Array nested)
        with r Some have "toJSON (Array nested) v k0 = Inr (Some j')"
          by (auto simp: G_def split: sum.splits)
        from "2.IH"(2) [OF kv refl Some Array v this] show ?thesis .
      qed
    qed
  qed
  with j show ?case by (auto simp: set_map_filter)
qed (simp_all add: toJSON.simps)

lemma toJSON_message_keys:
  assumes "allEmpty (TranslatedObject entries)"
    and "toJSON (Object sourceEntries) (TranslatedObject entries) k = Inr (Some (JObject result))"
    and "property (Object sourceEntries) k' = Some (Message m)"
  shows "k' \<notin> set (map fst result)"
proof
  define G where "G = (\<lambda>(k', v).
                     case property (Object sourceEntries) k' of
                       None \<Rightarrow> Inl TypeError
                     | Some (Message pf) \<Rightarrow>
                         (case translationToJSON pf (Some v) k' of
                            Inl e \<Rightarrow> Inl e
                          | Inr value \<Rightarrow> Inr (k', value))
                     | Some (Object nested) \<Rightarrow>
                         (case toJSON (Object nested) v k' of
                            Inl e \<Rightarrow> Inl e
                          | Inr value \<Rightarrow> Inr (k', value))
                     | Some (Array nested) \<Rightarrow>
                         (case toJSON (Array nested) v k' of
                            Inl e \<Rightarrow> Inl e
                          | Inr value \<Rightarrow> Inr (k', value)))"
  assume "k' \<in> set (map fst result)"
  then obtain j' where jr: "(k', j') \<in> set result" by auto
  from assms(2) obtain vals where s: "sequence (map G entries) = Inr vals"
    and res: "result = List.map_filter (\<lambda>(k', value). map_option (Pair k') value) vals"
    unfolding G_def by (auto simp: toJSON.simps Let_def split: sum.splits if_splits)
  from jr res have "(k', Some j') \<in> set vals" by (auto simp: set_map_filter)
  from sequence_map_Inr [OF s this] obtain k0 v
    where kv: "(k0, v) \<in> set entries" and r: "G (k0, v) = Inr (k', Some j')"
    by auto
  from kv assms(1) have v: "allEmpty v" by auto
  from r have k0: "k0 = k'"
    by (auto simp: G_def split: option.splits messages.splits sum.splits)
  have "translationToJSON m (Some v) k' \<noteq> Inr (Some j')"
    using v by (intro translationToJSON_empty) simp
  with r k0 assms(3) show False by (auto simp: G_def split: sum.splits)
qed


lemma sequence_all_Inr:
  "(\<And>e. e \<in> set es \<Longrightarrow> \<exists>x. f e = Inr x) \<Longrightarrow> \<exists>xs. sequence (map f es) = Inr xs"
proof (induction es)
  case (Cons e es)
  then obtain x xs where "f e = Inr x" "sequence (map f es) = Inr xs"
    by (metis list.set_intros(1) list.set_intros(2))
  then show ?case by simp
qed simp

lemma clear_succeeds: "clearable source t \<Longrightarrow> \<exists>t'. clear source t = Inr t'"
proof (induction source t rule: clear.induct)
  case (1 source entries)
  define F where "F = (\<lambda>(k, v).
                     case v of
                       TranslatedMessage pf \<Rightarrow>
                         (case emptyPluralForms (length (forms pf)) of
                            Inl e \<Rightarrow> Inl e
                          | Inr emptied \<Rightarrow> Inr (k, TranslatedMessage emptied))
                     | TranslatedObject nested \<Rightarrow>
                         (case property source k of
                            None \<Rightarrow> Inl TypeError
                          | Some (Message pf) \<Rightarrow> Inl TypeError
                          | Some sub \<Rightarrow>
                              (case clear sub v of
                                 Inl e \<Rightarrow> Inl e
                               | Inr cleared \<Rightarrow> Inr (k, cleared))))"
  have "\<exists>x. F e = Inr x" if e: "e \<in> set entries" for e
  proof -
    obtain k v where kv: "e = (k, v)" by (cases e)
    show ?thesis
    proof (cases v)
      case (TranslatedMessage pf)
      with "1.prems" e kv have "forms pf \<noteq> []" by (auto simp: clearable.simps)
      with TranslatedMessage kv show ?thesis
        by (simp add: F_def emptyPluralForms_eq)
    next
      case (TranslatedObject nested)
      from "1.prems" e kv have "case v of
          TranslatedMessage pf \<Rightarrow> forms pf \<noteq> []
        | TranslatedObject nested \<Rightarrow>
            (case property source k of
               None \<Rightarrow> False
             | Some (Message pf) \<Rightarrow> False
             | Some (Object es) \<Rightarrow> clearable (Object es) v
             | Some (Array xs) \<Rightarrow> clearable (Array xs) v)"
        by (auto simp: clearable.simps(1) [of source entries])
      with TranslatedObject have "case property source k of
               None \<Rightarrow> False
             | Some (Message pf) \<Rightarrow> False
             | Some (Object es) \<Rightarrow> clearable (Object es) v
             | Some (Array xs) \<Rightarrow> clearable (Array xs) v"
        by simp
      then consider
          (obj) es where "property source k = Some (Object es)" "clearable (Object es) v"
        | (arr) xs where "property source k = Some (Array xs)" "clearable (Array xs) v"
        by (cases "property source k") (auto split: messages.splits)
      then show ?thesis
      proof cases
        case obj
        from "1.IH"(1) [OF e kv [symmetric] TranslatedObject obj(1) refl obj(2)]
        obtain t' where "clear (Object es) v = Inr t'" ..
        with obj TranslatedObject kv show ?thesis by (simp add: F_def)
      next
        case arr
        from "1.IH"(2) [OF e kv [symmetric] TranslatedObject arr(1) refl arr(2)]
        obtain t' where "clear (Array xs) v = Inr t'" ..
        with arr TranslatedObject kv show ?thesis by (simp add: F_def)
      qed
    qed
  qed
  then obtain xs where "sequence (map F entries) = Inr xs"
    using sequence_all_Inr [of entries F] by blast
  then show ?case unfolding F_def by simp
qed (simp add: clearable.simps)

lemma map_of_map_update:
  "map_of (map (\<lambda>(k', v). if k' = k then (k', g v) else (k', v)) es) k = map_option g (map_of es k)"
  by (induction es) auto

lemma lookupAt_updateAt: "lookupAt p (updateAt p f r) = map_option f (lookupAt p r)"
proof (induction p f r rule: updateAt.induct)
  case (2 k ks f entries)
  then show ?case
    by (cases "map_of entries k") (auto simp: map_of_map_update dest: map_of_SomeD)
qed simp_all


lemma toJSON_JObject:
  "toJSON source t k = Inr (Some (JObject result)) \<Longrightarrow>
     \<exists>ses tes. source = Object ses \<and> t = TranslatedObject tes"
  by (cases source; cases t) (auto simp: toJSON.simps Let_def split: sum.splits if_splits)

lemma clear_reset: "clear source t = Inr t' \<Longrightarrow> t' = reset t"
proof (induction source t arbitrary: t' rule: clear.induct)
  case (1 source entries)
  define F where "F = (\<lambda>(k, v).
                     case v of
                       TranslatedMessage pf \<Rightarrow>
                         (case emptyPluralForms (length (forms pf)) of
                            Inl e \<Rightarrow> Inl e
                          | Inr emptied \<Rightarrow> Inr (k, TranslatedMessage emptied))
                     | TranslatedObject nested \<Rightarrow>
                         (case property source k of
                            None \<Rightarrow> Inl TypeError
                          | Some (Message pf) \<Rightarrow> Inl TypeError
                          | Some sub \<Rightarrow>
                              (case clear sub v of
                                 Inl e \<Rightarrow> Inl e
                               | Inr cleared \<Rightarrow> Inr (k, cleared))))"
  from "1.prems" obtain cleared where t': "t' = TranslatedObject cleared"
    and s: "sequence (map F entries) = Inr cleared"
    unfolding F_def by (auto split: sum.splits)
  have "F e = Inr (case e of (k, v) \<Rightarrow> (k, reset v))" if e: "e \<in> set entries" for e
  proof -
    obtain k v where kv: "e = (k, v)" by (cases e)
    from sequence_map_Inr' [OF s e] obtain x where r: "F (k, v) = Inr x"
      unfolding kv by blast
    have "x = (k, reset v)"
    proof (cases v)
      case (TranslatedMessage pf)
      with r show ?thesis
        by (auto simp: F_def emptyPluralForms_eq split: if_splits)
    next
      case (TranslatedObject nested)
      with r obtain sub v' where sub: "property source k = Some sub" and c: "clear sub v = Inr v'"
        and x: "x = (k, v')" and nm: "\<And>pf. sub \<noteq> Message pf"
        by (auto simp: F_def split: option.splits messages.splits sum.splits)
      show ?thesis
      proof (cases sub)
        case (Message pf)
        with nm [of pf] show ?thesis by simp
      next
        case (Object es)
        from "1.IH"(1) [OF e kv [symmetric] TranslatedObject sub Object] c Object x
        show ?thesis by simp
      next
        case (Array xs)
        from "1.IH"(2) [OF e kv [symmetric] TranslatedObject sub Array] c Array x
        show ?thesis by simp
      qed
    qed
    with r kv show ?thesis by simp
  qed
  then have m: "map F entries = map Inr (map (\<lambda>(k, v). (k, reset v)) entries)"
    by (simp only: map_map) (intro map_cong refl, simp)
  from trans [OF sym [OF sequence_Inr [OF s]] m] have "cleared = map (\<lambda>(k, v). (k, reset v)) entries"
    by (simp only: inj_map_eq_map [OF inj_Inr])
  with t' show ?case by simp
qed simp

lemma clear_clearable: "clearable source t \<Longrightarrow> clear source t = Inr (reset t)"
  using clear_succeeds [of source t] clear_reset [of source t] by auto

lemma map_of_map_value:
  "map_of (map (\<lambda>(k, v). (k, g v)) es) k = map_option g (map_of es k)"
  by (induction es) auto

lemma lookupAt_reset: "lookupAt p (reset t) = map_option reset (lookupAt p t)"
proof (induction p t rule: lookupAt.induct)
  case (2 k ks entries)
  then show ?case
    by (cases "map_of entries k") (simp_all add: map_of_map_value)
qed simp_all

lemma lookupAt_path:
  "lookupAt (p @ q) r = (case lookupAt p r of None \<Rightarrow> None | Some t \<Rightarrow> lookupAt q t)"
proof (induction p r rule: lookupAt.induct)
  case (2 k ks entries)
  then show ?case by (cases "map_of entries k") simp_all
qed simp_all

text \<open>
  Claim C2. Take a message whose parent has the key \<open>full\<close> or is an array, and whose
  translated value is an empty message. Where \<open>clear\<close> meets no failure on the translated
  messages of the parent, \<open>deletePartialTranslation\<close> succeeds, and the state it returns
  is the state before it with the translated messages of the parent replaced by their
  \<open>reset\<close>. Where it succeeds the state is that one: the translated messages of the parent
  have the keys that they had, every message that they held at any path is now the empty
  message of as many forms, and nothing else in the state has changed. What \<open>toJSON\<close>
  then emits for the parent holds no string, and no key at which the source of the parent
  has a message.
\<close>

theorem deletePartialTranslation_clears_group:
  assumes "has (parent this) ''full'' \<or> isArray (parent this)"
    and "translatedOf this root = Some (TranslatedMessage pf)"
    and "isEmpty pf"
  shows "(\<forall>group. lookupAt (pathOf (parent this)) root = Some group \<and>
              clearable (sourceOf (parent this)) group
            \<longrightarrow> deletePartialTranslation this root =
                  Inr (updateAt (pathOf (parent this)) (\<lambda>t. reset group) root)) \<and>
         (\<forall>root'. deletePartialTranslation this root = Inr root'
            \<longrightarrow> (\<exists>group. lookupAt (pathOf (parent this)) root = Some group \<and>
                   root' = updateAt (pathOf (parent this)) (\<lambda>t. reset group) root \<and>
                   lookupAt (pathOf (parent this)) root' = Some (reset group) \<and>
                   (\<forall>p m. lookupAt p group = Some (TranslatedMessage m) \<longrightarrow>
                      lookupAt (pathOf (parent this) @ p) root' =
                        Some (TranslatedMessage (PluralForms (replicate (length (forms m)) [])))) \<and>
                   allEmpty (reset group) \<and>
                   (\<forall>k j. toJSON (sourceOf (parent this)) (reset group) k = Inr (Some j) \<longrightarrow>
                      \<not> hasText j \<and>
                      (\<forall>k' m result.
                         property (sourceOf (parent this)) k' = Some (Message m) \<and> j = JObject result
                           \<longrightarrow> k' \<notin> set (map fst result)))))"
proof (intro conjI allI impI)
  fix group
  assume "lookupAt (pathOf (parent this)) root = Some group \<and>
    clearable (sourceOf (parent this)) group"
  then have "lookupAt (pathOf (parent this)) root = Some group"
    "clear (sourceOf (parent this)) group = Inr (reset group)"
    by (auto dest: clear_clearable)
  with assms show "deletePartialTranslation this root =
      Inr (updateAt (pathOf (parent this)) (\<lambda>t. reset group) root)"
    by (simp add: deletePartialTranslation_def clearAt_def)
next
  fix root'
  assume "deletePartialTranslation this root = Inr root'"
  with assms have "clearAt (parent this) root = Inr root'"
    by (simp add: deletePartialTranslation_def)
  then obtain group group' where g: "lookupAt (pathOf (parent this)) root = Some group"
    and c: "clear (sourceOf (parent this)) group = Inr group'"
    and r: "root' = updateAt (pathOf (parent this)) (\<lambda>t. group') root"
    by (auto simp: clearAt_def split: option.splits sum.splits)
  from c have g': "group' = reset group" by (rule clear_reset)
  from g r have l: "lookupAt (pathOf (parent this)) root' = Some group'"
    by (simp add: lookupAt_updateAt)
  from c have e: "allEmpty group'" by (rule clear_allEmpty)
  have leaf: "lookupAt (pathOf (parent this) @ p) root' =
        Some (TranslatedMessage (PluralForms (replicate (length (forms m)) [])))"
    if m: "lookupAt p group = Some (TranslatedMessage m)" for p m
    using l g' m by (simp add: lookupAt_path lookupAt_reset)
  have "\<not> hasText j \<and>
        (\<forall>k' m result.
           property (sourceOf (parent this)) k' = Some (Message m) \<and> j = JObject result
             \<longrightarrow> k' \<notin> set (map fst result))"
    if j: "toJSON (sourceOf (parent this)) group' k = Inr (Some j)" for k j
  proof (intro conjI allI impI)
    from e j show "\<not> hasText j" by (rule toJSON_noText)
  next
    fix k' m result
    assume a: "property (sourceOf (parent this)) k' = Some (Message m) \<and> j = JObject result"
    with j obtain ses tes where st: "sourceOf (parent this) = Object ses" "group' = TranslatedObject tes"
      by (auto dest: toJSON_JObject)
    from e st have e': "allEmpty (TranslatedObject tes)" by simp
    from j a st have j': "toJSON (Object ses) (TranslatedObject tes) k = Inr (Some (JObject result))"
      by simp
    from a st have p': "property (Object ses) k' = Some (Message m)" by simp
    from e' j' p' show "k' \<notin> set (map fst result)" by (rule toJSON_message_keys)
  qed
  with g r l e leaf show "\<exists>group. lookupAt (pathOf (parent this)) root = Some group \<and>
                   root' = updateAt (pathOf (parent this)) (\<lambda>t. reset group) root \<and>
                   lookupAt (pathOf (parent this)) root' = Some (reset group) \<and>
                   (\<forall>p m. lookupAt p group = Some (TranslatedMessage m) \<longrightarrow>
                      lookupAt (pathOf (parent this) @ p) root' =
                        Some (TranslatedMessage (PluralForms (replicate (length (forms m)) [])))) \<and>
                   allEmpty (reset group) \<and>
                   (\<forall>k j. toJSON (sourceOf (parent this)) (reset group) k = Inr (Some j) \<longrightarrow>
                      \<not> hasText j \<and>
                      (\<forall>k' m result.
                         property (sourceOf (parent this)) k' = Some (Message m) \<and> j = JObject result
                           \<longrightarrow> k' \<notin> set (map fst result)))"
    unfolding g' by blast
qed


theorem deletePartialTranslation_clears_group_witness:
  "has \<lparr>pathOf = [''introduction''],
         sourceOf = Object [(''full'', Message (PluralForms [''Click {here}.''])),
                            (''here'', Message (PluralForms [''here'']))]\<rparr> ''full'' \<and>
   translatedOf
     \<lparr>parent = \<lparr>pathOf = [''introduction''],
                 sourceOf = Object [(''full'', Message (PluralForms [''Click {here}.''])),
                                    (''here'', Message (PluralForms [''here'']))]\<rparr>,
      keyOf = ''full''\<rparr>
     (TranslatedObject
        [(''introduction'',
          TranslatedObject [(''full'', TranslatedMessage (PluralForms [''''])),
                            (''here'', TranslatedMessage (PluralForms [''aqui'']))])])
     = Some (TranslatedMessage (PluralForms [''''])) \<and>
   isEmpty (PluralForms ['''']) \<and>
   clearable (Object [(''full'', Message (PluralForms [''Click {here}.''])),
                      (''here'', Message (PluralForms [''here'']))])
     (TranslatedObject [(''full'', TranslatedMessage (PluralForms [''''])),
                        (''here'', TranslatedMessage (PluralForms [''aqui'']))]) \<and>
   deletePartialTranslation
     \<lparr>parent = \<lparr>pathOf = [''introduction''],
                 sourceOf = Object [(''full'', Message (PluralForms [''Click {here}.''])),
                                    (''here'', Message (PluralForms [''here'']))]\<rparr>,
      keyOf = ''full''\<rparr>
     (TranslatedObject
        [(''introduction'',
          TranslatedObject [(''full'', TranslatedMessage (PluralForms [''''])),
                            (''here'', TranslatedMessage (PluralForms [''aqui'']))])])
     = Inr (TranslatedObject
              [(''introduction'',
                TranslatedObject [(''full'', TranslatedMessage (PluralForms [''''])),
                                  (''here'', TranslatedMessage (PluralForms ['''']))])]) \<and>
   allEmpty (TranslatedObject [(''full'', TranslatedMessage (PluralForms [''''])),
                               (''here'', TranslatedMessage (PluralForms ['''']))]) \<and>
   toJSON (Object [(''full'', Message (PluralForms [''Click {here}.''])),
                   (''here'', Message (PluralForms [''here'']))])
     (TranslatedObject [(''full'', TranslatedMessage (PluralForms [''''])),
                        (''here'', TranslatedMessage (PluralForms ['''']))])
     ''introduction'' = Inr None \<and>
   isArray \<lparr>pathOf = [''numbers''],
             sourceOf = Array [Message (PluralForms [''one'']), Message (PluralForms [''two'']),
                               Message (PluralForms [''three''])]\<rparr> \<and>
   translatedOf
     \<lparr>parent = \<lparr>pathOf = [''numbers''],
                 sourceOf = Array [Message (PluralForms [''one'']), Message (PluralForms [''two'']),
                                   Message (PluralForms [''three''])]\<rparr>,
      keyOf = ''0''\<rparr>
     (TranslatedObject
        [(''numbers'',
          TranslatedObject [(''0'', TranslatedMessage (PluralForms [''''])),
                            (''1'', TranslatedMessage (PluralForms [''dos''])),
                            (''2'', TranslatedMessage (PluralForms [''tres'']))])])
     = Some (TranslatedMessage (PluralForms [''''])) \<and>
   deletePartialTranslation
     \<lparr>parent = \<lparr>pathOf = [''numbers''],
                 sourceOf = Array [Message (PluralForms [''one'']), Message (PluralForms [''two'']),
                                   Message (PluralForms [''three''])]\<rparr>,
      keyOf = ''0''\<rparr>
     (TranslatedObject
        [(''numbers'',
          TranslatedObject [(''0'', TranslatedMessage (PluralForms [''''])),
                            (''1'', TranslatedMessage (PluralForms [''dos''])),
                            (''2'', TranslatedMessage (PluralForms [''tres'']))])])
     = Inr (TranslatedObject
              [(''numbers'',
                TranslatedObject [(''0'', TranslatedMessage (PluralForms [''''])),
                                  (''1'', TranslatedMessage (PluralForms [''''])),
                                  (''2'', TranslatedMessage (PluralForms ['''']))])]) \<and>
   lookupAt [''numbers'', ''2'']
     (TranslatedObject
        [(''numbers'',
          TranslatedObject [(''0'', TranslatedMessage (PluralForms [''''])),
                            (''1'', TranslatedMessage (PluralForms [''''])),
                            (''2'', TranslatedMessage (PluralForms ['''']))])])
     = Some (TranslatedMessage (PluralForms [''''])) \<and>
   toJSON (Array [Message (PluralForms [''one'']), Message (PluralForms [''two'']),
                  Message (PluralForms [''three''])])
     (TranslatedObject [(''0'', TranslatedMessage (PluralForms [''''])),
                        (''1'', TranslatedMessage (PluralForms [''''])),
                        (''2'', TranslatedMessage (PluralForms ['''']))])
     ''numbers'' = Inr None"
proof -
  let ?source = "Object [(''full'', Message (PluralForms [''Click {here}.''])),
                         (''here'', Message (PluralForms [''here'']))]"
  let ?tr = "\<lparr>parent = \<lparr>pathOf = [''introduction''], sourceOf = ?source\<rparr>, keyOf = ''full''\<rparr>"
  let ?group = "TranslatedObject [(''full'', TranslatedMessage (PluralForms [''''])),
                                  (''here'', TranslatedMessage (PluralForms [''aqui'']))]"
  let ?root = "TranslatedObject [(''introduction'', ?group)]"
  let ?group' = "TranslatedObject [(''full'', TranslatedMessage (PluralForms [''''])),
                                   (''here'', TranslatedMessage (PluralForms ['''']))]"
  let ?root' = "TranslatedObject [(''introduction'', ?group')]"
  let ?array = "Array [Message (PluralForms [''one'']), Message (PluralForms [''two'']),
                       Message (PluralForms [''three''])]"
  let ?el = "\<lparr>parent = \<lparr>pathOf = [''numbers''], sourceOf = ?array\<rparr>, keyOf = ''0''\<rparr>"
  let ?elements = "TranslatedObject [(''0'', TranslatedMessage (PluralForms [''''])),
                                     (''1'', TranslatedMessage (PluralForms [''dos''])),
                                     (''2'', TranslatedMessage (PluralForms [''tres'']))]"
  let ?numbers = "TranslatedObject [(''numbers'', ?elements)]"
  let ?elements' = "TranslatedObject [(''0'', TranslatedMessage (PluralForms [''''])),
                                      (''1'', TranslatedMessage (PluralForms [''''])),
                                      (''2'', TranslatedMessage (PluralForms ['''']))]"
  let ?numbers' = "TranslatedObject [(''numbers'', ?elements')]"
  have h0: "has \<lparr>pathOf = [''introduction''], sourceOf = ?source\<rparr> ''full''"
    by (simp add: has_def property_def)
  then have h1: "has (parent ?tr) ''full'' \<or> isArray (parent ?tr)"
    by simp
  have h2: "translatedOf ?tr ?root = Some (TranslatedMessage (PluralForms ['''']))"
    by (simp add: translatedOf_def)
  have h3: "isEmpty (PluralForms [''''])"
    by (simp add: isEmpty_def)
  have c: "clearable ?source ?group"
    by (simp add: clearable.simps)
  then have lc: "lookupAt (pathOf (parent ?tr)) ?root = Some ?group \<and>
      clearable (sourceOf (parent ?tr)) ?group"
    by simp
  from deletePartialTranslation_clears_group [OF h1 h2 h3, THEN conjunct1, rule_format, OF lc]
  have d: "deletePartialTranslation ?tr ?root = Inr ?root'"
    by simp
  from deletePartialTranslation_clears_group [OF h1 h2 h3, THEN conjunct2, rule_format, OF d]
  obtain group where "lookupAt (pathOf (parent ?tr)) ?root = Some group" "allEmpty (reset group)"
    by blast
  then have e: "allEmpty ?group'" by auto
  have j: "toJSON ?source ?group' ''introduction'' = Inr None"
    by (simp add: toJSON.simps property_def translationToJSON_def isEmpty_def isDigits_def
          map_filter_simps)
  have a0: "isArray \<lparr>pathOf = [''numbers''], sourceOf = ?array\<rparr>"
    by (simp add: isArray_def)
  then have a1: "has (parent ?el) ''full'' \<or> isArray (parent ?el)"
    by simp
  have a2: "translatedOf ?el ?numbers = Some (TranslatedMessage (PluralForms ['''']))"
    by (simp add: translatedOf_def)
  have ac: "lookupAt (pathOf (parent ?el)) ?numbers = Some ?elements \<and>
      clearable (sourceOf (parent ?el)) ?elements"
    by (simp add: clearable.simps)
  from deletePartialTranslation_clears_group [OF a1 a2 h3, THEN conjunct1, rule_format, OF ac]
  have ad: "deletePartialTranslation ?el ?numbers = Inr ?numbers'"
    by simp
  from deletePartialTranslation_clears_group [OF a1 a2 h3, THEN conjunct2, rule_format, OF ad]
  obtain elements where "lookupAt (pathOf (parent ?el)) ?numbers = Some elements"
    and leaf: "\<forall>p m. lookupAt p elements = Some (TranslatedMessage m) \<longrightarrow>
      lookupAt (pathOf (parent ?el) @ p) ?numbers' =
        Some (TranslatedMessage (PluralForms (replicate (length (forms m)) [])))"
    by blast
  then have "elements = ?elements" by simp
  with leaf [THEN spec, THEN spec, THEN mp, of "[''2'']" "PluralForms [''tres'']"]
  have al: "lookupAt [''numbers'', ''2''] ?numbers' = Some (TranslatedMessage (PluralForms ['''']))"
    by simp
  have aj: "toJSON ?array ?elements' ''numbers'' = Inr None"
    by (simp add: toJSON.simps decimal.simps translationToJSON_def isEmpty_def isDigits_def)
  from h0 h2 h3 c d e j a0 a2 ad al aj show ?thesis by (intro conjI)
qed

section \<open>Properties of the copy of linked locale messages\<close>











section \<open>Properties of the conversions\<close>

lemma includesStr_single: "includesStr s [c] \<longleftrightarrow> c \<in> set s"
  by (induction s) auto

lemma split_no_bar:
  "CHR ''|'' \<notin> set s \<Longrightarrow> split s '' | '' = [s]"
proof (induction s)
  case (Cons c cs)
  then have "\<not> prefix '' | '' (c # cs)"
    by (auto simp: prefix_def)
  with Cons show ?case by simp
qed simp

lemma split_bar:
  "CHR ''|'' \<notin> set a \<Longrightarrow>
     split (a @ CHR '' '' # CHR ''|'' # CHR '' '' # b) '' | '' = a # split b '' | ''"
proof (induction a)
  case Nil
  show ?case by simp
next
  case (Cons c a)
  have "\<not> prefix '' | '' (c # a @ CHR '' '' # CHR ''|'' # CHR '' '' # b)"
    using Cons.prems by (cases a) auto
  with Cons show ?case by simp
qed

lemma newPluralForms_forms: "newPluralForms fs = Inr m \<Longrightarrow> m = PluralForms fs"
  by (auto simp: newPluralForms_def split: list.splits sum.splits)

lemma vue_round_trip:
  assumes "newPluralForms fs = Inr m" and "length fs = 1 \<or> length fs = 2"
    and "\<forall>form\<in>set fs. \<not> includesStr form ''|'' \<and> \<not> badWhiteSpace form"
  shows "toVueI18n m = Inr (join fs '' | '') \<and> fromVueI18n (join fs '' | '') = Inr m"
proof -
  from assms(1) have m: "m = PluralForms fs" by (rule newPluralForms_forms)
  from assms(3) have nb: "\<forall>form\<in>set fs. CHR ''|'' \<notin> set form"
    by (simp add: includesStr_single)
  from assms(3) have "\<not> list_ex (\<lambda>form. includesStr form ''|'') fs"
    by (simp add: list_ex_iff)
  with m have to: "toVueI18n m = Inr (join fs '' | '')"
    by (simp add: toVueI18n_def)
  from assms(2) consider a where "fs = [a]" | a b where "fs = [a, b]"
    by (cases fs; cases "tl fs"; cases "tl (tl fs)") auto
  then have "split (join fs '' | '') '' | '' = fs"
  proof cases
    case 1
    with nb show ?thesis by (simp add: split_no_bar)
  next
    case 2
    with nb show ?thesis by (simp add: split_bar split_no_bar)
  qed
  moreover from assms(3) have "checkVueForms fs = Inr ()"
    by (induction fs) auto
  ultimately have "fromVueI18n (join fs '' | '') = Inr m"
    using assms(1,2) by (auto simp: fromVueI18n_def Let_def)
  with to show ?thesis by simp
qed

lemma matchVars_token:
  assumes "w \<noteq> []" and "list_all isWord w"
  shows "matchVars (CHR ''{'' # w @ CHR ''}'' # r) = (CHR ''{'' # w @ ''}'') # matchVars r"
proof -
  from assms(2) have "takeWhile isWord (w @ CHR ''}'' # r) = w"
    and "dropWhile isWord (w @ CHR ''}'' # r) = CHR ''}'' # r"
    by (simp_all add: list_all_iff)
  with assms(1) show ?thesis by simp
qed

lemma matchVars_cases:
  obtains (Token) w r where "cs = w @ CHR ''}'' # r" "c = CHR ''{''" "w \<noteq> []" "list_all isWord w"
  | (Skip) "matchVars (c # cs) = matchVars cs"
proof (cases "c = CHR ''{'' \<and> takeWhile isWord cs \<noteq> [] \<and>
    (\<exists>r. dropWhile isWord cs = CHR ''}'' # r)")
  case True
  then obtain r where r: "dropWhile isWord cs = CHR ''}'' # r" by blast
  have "cs = takeWhile isWord cs @ dropWhile isWord cs" by simp
  with r have "cs = takeWhile isWord cs @ CHR ''}'' # r" by simp
  moreover have "list_all isWord (takeWhile isWord cs)"
    by (auto simp: list_all_iff dest: set_takeWhileD)
  ultimately show ?thesis using True by (intro Token) auto
next
  case False
  then have "matchVars (c # cs) = matchVars cs"
    by (cases "dropWhile isWord cs") (auto simp del: dropWhile_eq_Nil_conv)
  then show ?thesis by (rule Skip)
qed

lemma matchVars_induct2 [case_names Nil Token Skip]:
  assumes "P []"
    and "\<And>w r. w \<noteq> [] \<Longrightarrow> list_all isWord w \<Longrightarrow> P r \<Longrightarrow> P (CHR ''{'' # w @ CHR ''}'' # r)"
    and "\<And>c cs. matchVars (c # cs) = matchVars cs \<Longrightarrow> P cs \<Longrightarrow> P (c # cs)"
  shows "P s"
proof (induction s rule: length_induct)
  case (1 s)
  show ?case
  proof (cases s)
    case Nil
    with assms(1) show ?thesis by simp
  next
    case (Cons c cs)
    show ?thesis
    proof (cases rule: matchVars_cases [of cs c])
      case (Token w r)
      from Token(1) Cons have "length r < length s" by simp
      with 1 have "P r" by blast
      from assms(2) [OF Token(3,4) this] Token Cons show ?thesis by simp
    next
      case Skip
      from Cons 1 have "P cs" by simp
      from assms(3) [OF Skip this] Cons show ?thesis by simp
    qed
  qed
qed

lemma word_not_brace: "isWord c \<Longrightarrow> \<not> isBrace c"
  by (auto simp: isBrace_def)

lemma filter_isBrace_word: "list_all isWord w \<Longrightarrow> filter isBrace w = []"
  by (auto simp: list_all_iff filter_empty_conv dest: word_not_brace)

lemma isBrace_braces: "isBrace CHR ''{''" "isBrace CHR ''}''"
  by (simp_all add: isBrace_def)

lemma braces_ge: "2 * length (matchVars s) \<le> length (filter isBrace s)"
proof (induction s rule: matchVars_induct2)
  case (Token w r)
  then show ?case
    by (simp add: matchVars_token filter_isBrace_word isBrace_braces del: matchVars.simps)
next
  case (Skip c cs)
  then show ?case by (simp del: matchVars.simps)
qed simp

lemma accepted_token:
  assumes "w \<noteq> []" and "list_all isWord w"
  shows "accepted (CHR ''{'' # w @ CHR ''}'' # r) = accepted r"
  using assms
  by (simp add: accepted_def matchVars_token filter_isBrace_word isBrace_braces
        del: matchVars.simps)

lemma accepted_skip:
  assumes "matchVars (c # cs) = matchVars cs" and "accepted (c # cs)"
  shows "\<not> isBrace c \<and> accepted cs"
  using assms braces_ge [of cs]
  by (auto simp: accepted_def simp del: matchVars.simps split: if_splits)

lemma depth_word_run:
  "list_all isWord w \<Longrightarrow> u > 0 \<Longrightarrow>
     staysOpen u (w @ ys) = staysOpen u ys \<and> depthAfter u (w @ ys) = depthAfter u ys"
proof (induction w)
  case (Cons c w)
  then have "braceStep u c = u" by (auto simp: braceStep_def)
  with Cons show ?case by simp
qed simp

lemma accepted_depth:
  "accepted a \<Longrightarrow> u > 0 \<Longrightarrow> staysOpen u a \<and> depthAfter u a = u"
proof (induction a arbitrary: u rule: matchVars_induct2)
  case Nil
  show ?case by simp
next
  case (Token w r)
  from Token.prems(1) Token.hyps have "accepted r" by (simp add: accepted_token)
  from Token.IH [OF this Token.prems(2)]
  have "staysOpen u r \<and> depthAfter u r = u" .
  with Token.hyps Token.prems(2) show ?case
    by (simp add: braceStep_def depth_word_run)
next
  case (Skip c cs)
  from accepted_skip [OF Skip.hyps Skip.prems(1)] have c: "\<not> isBrace c" and cs: "accepted cs"
    by simp_all
  from c have "braceStep u c = u" by (auto simp: braceStep_def isBrace_def)
  with Skip.IH [OF cs Skip.prems(2)] Skip.prems(2) show ?case by simp
qed

lemma parseVars_accepted: "parseVars s = Inr vs \<Longrightarrow> accepted s"
  using braces_ge [of s]
  by (auto simp: parseVars_def accepted_def Let_def split: if_splits)

lemma accepted_not_icu: "accepted s \<Longrightarrow> \<not> prefix icuOpen s"
proof
  assume a: "accepted s" and "prefix icuOpen s"
  then obtain r where s: "s = CHR ''{'' # ''count, plural,'' @ r"
    by (auto simp: prefix_def icuOpen_def)
  have "matchVars s = matchVars (''count, plural,'' @ r)"
    unfolding s by (simp add: isWord_def)
  moreover have "length (filter isBrace s) = Suc (length (filter isBrace (''count, plural,'' @ r)))"
    unfolding s by (simp add: isBrace_def)
  ultimately show False
    using a braces_ge [of "''count, plural,'' @ r"] by (simp add: accepted_def)
qed

lemma scan_through:
  "rest \<noteq> [] \<Longrightarrow> staysOpen u a \<Longrightarrow>
     scanBraces (pre @ a @ rest) u (length pre) =
       scanBraces (pre @ a @ rest) (depthAfter u a) (length pre + length a)"
proof (induction a arbitrary: u pre)
  case Nil
  show ?case by simp
next
  case (Cons c cs)
  from Cons.prems have u: "u > 0" and op: "staysOpen (braceStep u c) cs" by simp_all
  have "scanBraces (pre @ (c # cs) @ rest) u (length pre) =
      scanBraces (pre @ (c # cs) @ rest) (braceStep u c) (length pre + 1)"
    using u Cons.prems(1)
    by (subst scanBraces.simps) (auto simp: braceStep_def nth_append)
  also have "\<dots> = scanBraces ((pre @ [c]) @ cs @ rest) (braceStep u c) (length (pre @ [c]))"
    by simp
  also have "\<dots> = scanBraces ((pre @ [c]) @ cs @ rest) (depthAfter (braceStep u c) cs)
      (length (pre @ [c]) + length cs)"
    using Cons.prems(1) op by (rule Cons.IH)
  finally show ?case by simp
qed

lemma scan_form:
  assumes "accepted a" and "rest \<noteq> []"
  shows "scanBraces (pre @ a @ CHR ''}'' # rest) 1 (length pre) = (0, length pre + length a + 1)"
proof -
  let ?s = "pre @ a @ CHR ''}'' # rest"
  from accepted_depth [OF assms(1), of 1] have o: "staysOpen 1 a" and d: "depthAfter 1 a = 1"
    by simp_all
  have "scanBraces ?s 1 (length pre) = scanBraces ?s 1 (length pre + length a)"
    using scan_through [of "CHR ''}'' # rest" 1 a pre] o d by simp
  also have "\<dots> = scanBraces ?s 0 (length pre + length a + 1)"
    using assms(2) by (subst scanBraces.simps) (auto simp: nth_append)
  also have "\<dots> = (0, length pre + length a + 1)"
    by (subst scanBraces.simps) simp
  finally show ?thesis .
qed


lemma formMatch_category:
  assumes "cat \<noteq> []" and "list_all isLower cat"
  shows "formMatch (CHR '' '' # cat @ CHR '' '' # CHR ''{'' # r) = Some (CHR '' '' # cat @ '' {'', cat)"
proof -
  have "\<not> isLower CHR '' ''" by (simp add: isLower_def)
  with assms(2) have "takeWhile isLower (cat @ CHR '' '' # CHR ''{'' # r) = cat"
    and "dropWhile isLower (cat @ CHR '' '' # CHR ''{'' # r) = CHR '' '' # CHR ''{'' # r"
    by (simp_all add: list_all_iff)
  with assms(1) show ?thesis by (simp add: formMatch_def)
qed

lemma parsePlural_step:
  assumes "cat \<noteq> []" and "list_all isLower cat" and "accepted a" and "rest \<noteq> []"
    and "s = pre @ CHR '' '' # cat @ CHR '' '' # CHR ''{'' # a @ CHR ''}'' # rest"
  shows "parsePlural s (length pre) =
    (case parsePlural s (length pre + length cat + length a + 4) of
       Inl e \<Rightarrow> Inl e
     | Inr (cs, fs) \<Rightarrow> Inr (cat # cs, a # fs))"
proof -
  let ?whole = "CHR '' '' # cat @ '' {''"
  have b: "length pre < length s - 1"
    unfolding assms(5) by simp
  have d: "drop (length pre) s = CHR '' '' # cat @ CHR '' '' # CHR ''{'' # a @ CHR ''}'' # rest"
    unfolding assms(5) by simp
  have fm: "formMatch (drop (length pre) s) = Some (?whole, cat)"
    unfolding d using assms(1,2) by (rule formMatch_category)
  have s': "s = (pre @ ?whole) @ a @ CHR ''}'' # rest"
    unfolding assms(5) by simp
  have "scanBraces s 1 (length (pre @ ?whole)) = (0, length (pre @ ?whole) + length a + 1)"
    unfolding s' using assms(3,4) by (rule scan_form)
  then have sc: "scanBraces s 1 (length pre + length ?whole) = (0, length pre + length cat + length a + 4)"
    by simp
  have gen: "drop (length xs) (xs @ ys) = ys" for xs ys :: string
    by simp
  have "drop (length (pre @ ?whole)) s = a @ CHR ''}'' # rest"
    unfolding s' by (rule gen)
  then have sl: "slice s (length pre + length ?whole) (length pre + length cat + length a + 4 - 1) = a"
    by (simp add: slice_def)
  show ?thesis
    by (subst parsePlural.simps) (simp only: b fm sc sl if_True option.case prod.case, simp)
qed

lemma parsePlural_two:
  assumes "accepted a" and "accepted b"
  shows "parsePlural (''{count, plural, one {'' @ a @ ''} other {'' @ b @ ''}}'') (length icuOpen) =
    Inr ([''one'', ''other''], [a, b])"
proof -
  let ?s = "''{count, plural, one {'' @ a @ ''} other {'' @ b @ ''}}''"
  let ?pre2 = "''{count, plural, one {'' @ a @ ''}''"
  have 1: "parsePlural ?s (length ''{count, plural,'') =
    (case parsePlural ?s (length ''{count, plural,'' + length ''one'' + length a + 4) of
       Inl e \<Rightarrow> Inl e
     | Inr (cs, fs) \<Rightarrow> Inr (''one'' # cs, a # fs))"
    by (rule parsePlural_step [where rest = "'' other {'' @ b @ ''}}''"])
       (simp_all add: assms isLower_def)
  have 2: "parsePlural ?s (length ?pre2) =
    (case parsePlural ?s (length ?pre2 + length ''other'' + length b + 4) of
       Inl e \<Rightarrow> Inl e
     | Inr (cs, fs) \<Rightarrow> Inr (''other'' # cs, b # fs))"
    by (rule parsePlural_step [where rest = "''}''"])
       (simp_all add: assms isLower_def)
  have 3: "parsePlural ?s (length ?pre2 + length ''other'' + length b + 4) = Inr ([], [])"
    by (subst parsePlural.simps) simp
  have l: "length ''{count, plural,'' + length ''one'' + length a + 4 = length ?pre2"
    by simp
  show ?thesis
    unfolding icuOpen_def 1 l 2 3 by simp
qed

lemma newPluralForms_accepted:
  assumes "newPluralForms fs = Inr m" and "form \<in> set fs"
  shows "accepted form"
proof -
  from assms(1) obtain form0 rest vars where fs: "fs = form0 # rest"
    and p0: "parseVars form0 = Inr vars" and c: "checkForms form0 vars rest = Inr ()"
    by (auto simp: newPluralForms_def split: list.splits sum.splits)
  have "\<forall>f\<in>set rest. \<exists>vs. parseVars f = Inr vs" using c
    by (induction rest) (auto split: if_splits sum.splits)
  with p0 fs assms(2) show ?thesis by (auto dest: parseVars_accepted)
qed

lemma transifex_round_trip:
  assumes "newPluralForms fs = Inr m" and "length fs = 1 \<or> length fs = 2"
    and "\<forall>form\<in>set fs. \<not> includesStr form [CHR 0x27] \<and> \<not> includesStr form ''#'' \<and>
           collapseSpaces (trim form) = form"
    and "length fs = 2 \<longrightarrow>
           (\<exists>options. locales intl locale = Some options \<and>
                      pluralCategories options = [''one'', ''other''])"
  shows "\<exists>s. toTransifex m = Inr (Some s) \<and> fromTransifex intl s locale = Inr m"
proof -
  from assms(1) have m: "m = PluralForms fs" by (rule newPluralForms_forms)
  from assms(3) have r: "checkReserved fs = Inr ()"
    by (induction fs) auto
  from assms(3) have n: "map (\<lambda>form. collapseSpaces (trim form)) fs = fs"
    by (simp add: map_idI)
  from assms(2) consider a where "fs = [a]" | a b where "fs = [a, b]"
    by (cases fs; cases "tl fs"; cases "tl (tl fs)") auto
  then show ?thesis
  proof cases
    case 1
    from assms(1) 1 have "accepted a" by (auto dest: newPluralForms_accepted)
    then have "\<not> icuMatch a" by (auto simp: icuMatch_def dest: accepted_not_icu)
    with assms(1) n 1 have "fromTransifex intl a locale = Inr m"
      by (simp add: fromTransifex_def)
    moreover from m r 1 have "toTransifex m = Inr (Some a)"
      by (simp add: toTransifex_def)
    ultimately show ?thesis by blast
  next
    case 2
    let ?s = "''{count, plural, one {'' @ a @ ''} other {'' @ b @ ''}}''"
    from assms(1) 2 have ab: "accepted a" "accepted b"
      by (auto dest: newPluralForms_accepted)
    from assms(4) 2 obtain options where o: "locales intl locale = Some options"
      "pluralCategories options = [''one'', ''other'']"
      by auto
    have i: "icuMatch ?s" by (simp add: icuMatch_def icuOpen_def)
    have s: "sort [''one'', ''other''] = [''one'', ''other'']" by simp
    from m r 2 have to: "toTransifex m = Inr (Some ?s)"
      by (simp add: toTransifex_def)
    have "fromTransifex intl ?s locale = newPluralForms (map (\<lambda>form. collapseSpaces (trim form)) fs)"
      unfolding fromTransifex_def
      by (simp only: i if_True parsePlural_two [OF ab] o s 2 sum.case prod.case option.case
            simp_thms if_False)
    with n assms(1) have "fromTransifex intl ?s locale = Inr m" by simp
    with to show ?thesis by blast
  qed
qed


text \<open>
  Claim C1, as amended. Let \<open>m\<close> be constructed from one or two forms. If no form
  contains a straight single quote or \<open>#\<close>, every form is what trimming it and
  collapsing its white space gives, and, for two forms, the plural categories of the
  locale are \<open>one\<close> and \<open>other\<close>, then \<open>toTransifex\<close> succeeds on \<open>m\<close> and \<open>fromTransifex\<close>
  gives \<open>m\<close> back from its result. If no form contains \<open>|\<close> or has white space at its
  start, at its end or twice in a row, then \<open>toVueI18n\<close> succeeds on \<open>m\<close> and
  \<open>fromVueI18n\<close> gives \<open>m\<close> back from its result.
\<close>

theorem round_trips:
  assumes "newPluralForms fs = Inr m" and "length fs = 1 \<or> length fs = 2"
  shows "((\<forall>form\<in>set fs. \<not> includesStr form [CHR 0x27] \<and> \<not> includesStr form ''#'' \<and>
             collapseSpaces (trim form) = form) \<and>
          (length fs = 2 \<longrightarrow>
             (\<exists>options. locales intl locale = Some options \<and>
                        pluralCategories options = [''one'', ''other'']))
            \<longrightarrow> (\<exists>s. toTransifex m = Inr (Some s) \<and> fromTransifex intl s locale = Inr m)) \<and>
         ((\<forall>form\<in>set fs. \<not> includesStr form ''|'' \<and> \<not> badWhiteSpace form)
            \<longrightarrow> (\<exists>s. toVueI18n m = Inr s \<and> fromVueI18n s = Inr m))"
proof (intro conjI impI)
  assume "(\<forall>form\<in>set fs. \<not> includesStr form [CHR 0x27] \<and> \<not> includesStr form ''#'' \<and>
             collapseSpaces (trim form) = form) \<and>
          (length fs = 2 \<longrightarrow>
             (\<exists>options. locales intl locale = Some options \<and>
                        pluralCategories options = [''one'', ''other'']))"
  then show "\<exists>s. toTransifex m = Inr (Some s) \<and> fromTransifex intl s locale = Inr m"
    using transifex_round_trip [OF assms] by blast
next
  assume "\<forall>form\<in>set fs. \<not> includesStr form ''|'' \<and> \<not> badWhiteSpace form"
  from vue_round_trip [OF assms this]
  show "\<exists>s. toVueI18n m = Inr s \<and> fromVueI18n s = Inr m" by blast
qed

theorem round_trips_witness:
  "newPluralForms [''{n} row'', ''{n} rows''] = Inr (PluralForms [''{n} row'', ''{n} rows'']) \<and>
   toTransifex (PluralForms [''{n} row'', ''{n} rows'']) =
     Inr (Some ''{count, plural, one {{n} row} other {{n} rows}}'') \<and>
   fromTransifex (\<lambda>l. [''other'']) ''{count, plural, one {{n} row} other {{n} rows}}'' ''fr'' =
     Inr (PluralForms [''{n} row'', ''{n} rows'']) \<and>
   toVueI18n (PluralForms [''{n} row'', ''{n} rows'']) = Inr ''{n} row | {n} rows'' \<and>
   fromVueI18n ''{n} row | {n} rows'' = Inr (PluralForms [''{n} row'', ''{n} rows''])"
proof -
  let ?fs = "[''{n} row'', ''{n} rows'']"
  let ?intl = "\<lambda>l::string. [''other'']"
  have c: "newPluralForms ?fs = Inr (PluralForms ?fs)"
    by (simp add: newPluralForms_def parseVars_def isWord_def isBrace_def)
  have n: "length ?fs = 1 \<or> length ?fs = 2"
    by simp
  have t: "(\<forall>form\<in>set ?fs. \<not> includesStr form [CHR 0x27] \<and> \<not> includesStr form ''#'' \<and>
             collapseSpaces (trim form) = form) \<and>
          (length ?fs = 2 \<longrightarrow>
             (\<exists>options. locales ?intl ''fr'' = Some options \<and>
                        pluralCategories options = [''one'', ''other'']))"
    by (simp add: trim_def isSpace_def locales_def localesSource_def normalize_def)
  have v: "\<forall>form\<in>set ?fs. \<not> includesStr form ''|'' \<and> \<not> badWhiteSpace form"
    by (simp add: badWhiteSpace_def isSpace_def)
  have 1: "toTransifex (PluralForms ?fs) =
      Inr (Some ''{count, plural, one {{n} row} other {{n} rows}}'')"
    by (simp add: toTransifex_def)
  have 2: "toVueI18n (PluralForms ?fs) = Inr ''{n} row | {n} rows''"
    by (simp add: toVueI18n_def)
  from round_trips [OF c n, of ?intl "''fr''", THEN conjunct1, THEN mp, OF t] 1
  have 3: "fromTransifex ?intl ''{count, plural, one {{n} row} other {{n} rows}}'' ''fr'' =
      Inr (PluralForms ?fs)"
    by auto
  from round_trips [OF c n, of ?intl "''fr''", THEN conjunct2, THEN mp, OF v] 2
  have 4: "fromVueI18n ''{n} row | {n} rows'' = Inr (PluralForms ?fs)"
    by auto
  from c 1 3 2 4 show ?thesis by (intro conjI)
qed

text \<open>
  Claim C1 as the specification states it fails. A message with the single form \<open>it's\<close>
  is constructed and \<open>toTransifex\<close> fails on it; one with the form \<open>a|b\<close> is constructed
  and \<open>toVueI18n\<close> fails on it; one with the form \<open>a  b\<close>, with two spaces, is
  constructed and comes back from Transifex with a single space.
\<close>

theorem round_trips_counterexample:
  "newPluralForms [[CHR ''i'', CHR ''t'', CHR 0x27, CHR ''s'']] =
     Inr (PluralForms [[CHR ''i'', CHR ''t'', CHR 0x27, CHR ''s'']]) \<and>
   toTransifex (PluralForms [[CHR ''i'', CHR ''t'', CHR 0x27, CHR ''s'']]) = Inl StraightSingleQuote \<and>
   newPluralForms [''a|b''] = Inr (PluralForms [''a|b'']) \<and>
   toVueI18n (PluralForms [''a|b'']) = Inl UnexpectedBar \<and>
   newPluralForms [''a  b''] = Inr (PluralForms [''a  b'']) \<and>
   toTransifex (PluralForms [''a  b'']) = Inr (Some ''a  b'') \<and>
   fromTransifex (\<lambda>l. [''one'', ''other'']) ''a  b'' ''en'' = Inr (PluralForms [''a b''])"
  by (simp add: newPluralForms_def parseVars_def isWord_def isBrace_def toTransifex_def
        toVueI18n_def fromTransifex_def icuMatch_def icuOpen_def trim_def isSpace_def)

end
